theory Spec2Isabelle
  imports Main "HOL-Library.Word" "HOL-Library.AList" "HOL-Library.Multiset" "HOL-Library.Sublist"
begin

unbundle bit_operations_syntax

section \<open>Go values used by the commit-graph ingestion\<close>

text \<open>
  The embedded code is the gitserver file that defines \<open>SQLRepo.Clone\<close>, the \<open>bag\<close>,
  \<open>aggregateReachability\<close> and \<open>pathCoverage.TakeIndex\<close>.

  A \<open>plumbing.Hash\<close> is a byte array; \<open>hex.EncodeToString\<close> writes two lower-case
  hexadecimal digits per byte.
\<close>

type_synonym Hash = "8 word list"

definition hextable :: string where
  "hextable = ''0123456789abcdef''"

fun EncodeToString :: "8 word list \<Rightarrow> string" where
  "EncodeToString [] = []"
| "EncodeToString (b # bs) =
     hextable ! unat (drop_bit 4 b) # hextable ! unat (b AND 15) # EncodeToString bs"

text \<open>
  Go's \<open>int\<close> is 64 bits wide here: values are integers between \<open>minInt\<close> and \<open>maxInt\<close>,
  and \<open>+\<close> wraps around. \<open>maxInt\<close> is the constant \<open>int(^uint(0) >> 1)\<close> of the source.
\<close>

definition maxInt :: int where
  "maxInt = 2 ^ 63 - 1"

definition minInt :: int where
  "minInt = - (2 ^ 63)"

definition wrapInt :: "int \<Rightarrow> int" where
  "wrapInt x = (x + 2 ^ 63) mod 2 ^ 64 - 2 ^ 63"

text \<open>
  A \<open>map[int]int\<close> is an association list; the order of the list is the order in which
  a \<open>range\<close> loop visits the entries, which Go leaves open. Reading a missing key gives 0;
  writing is \<open>AList.update\<close>, which keeps the keys distinct.
\<close>

type_synonym intmap = "(int \<times> int) list"

definition rd :: "intmap \<Rightarrow> int \<Rightarrow> int" where
  "rd m c = (case map_of m c of None \<Rightarrow> 0 | Some i \<Rightarrow> i)"

record RepoVersionPathCoverage =
  PathColor :: int
  PathIndex :: int

record RepoVersion =
  RepoID :: int
  ExternalID :: string
  PathCoverage :: RepoVersionPathCoverage
  Reachability :: intmap

record Commit =
  Hash :: Hash
  ParentHashes :: "Hash list"

datatype error =
    GitError                 \<comment> \<open>an error of the clone, the branch lookup, the log or \<open>CommitObject\<close>\<close>
  | EmptyGraphError          \<comment> \<open>\<open>want at least one root commit\<close>\<close>
  | IntegrityError string    \<comment> \<open>\<open>expected to find %q in database\<close>\<close>
  | TransientError           \<comment> \<open>an error returned by a round trip to the store\<close>
  | Panic                    \<comment> \<open>index out of range in \<open>bag.pop\<close>\<close>

section \<open>The reachability indexer\<close>

text \<open>\<open>aggregateReachability\<close>: the inner loop over one parent's map, then the loop over the parents.\<close>

definition raise :: "int \<times> int \<Rightarrow> intmap \<Rightarrow> intmap" where
  "raise e r = (case e of (c, i) \<Rightarrow> let j = rd r c in if i > j then AList.update c i r else r)"

definition aggregateReachability :: "RepoVersion list \<Rightarrow> intmap" where
  "aggregateReachability parents = fold (\<lambda>p r. fold raise (Reachability p) r) parents []"

record pathCoverage =
  topIndices :: intmap
  highestUsedColor :: int

text \<open>The loop of \<open>TakeIndex\<close> that looks for the lowest usable color.\<close>

definition usable :: "intmap \<Rightarrow> int \<times> int \<Rightarrow> int \<Rightarrow> int" where
  "usable topIdx e lowestUsableColor =
     (case e of (c, i) \<Rightarrow>
        if rd topIdx c = i then (if c < lowestUsableColor then c else lowestUsableColor)
        else lowestUsableColor)"

definition TakeIndex :: "pathCoverage \<Rightarrow> intmap \<Rightarrow> RepoVersionPathCoverage \<times> pathCoverage" where
  "TakeIndex p reachability =
     (let lowestUsableColor = fold (usable (topIndices p)) reachability maxInt;
          lowestUsableColor =
            (if lowestUsableColor = maxInt then wrapInt (highestUsedColor p + 1)
             else lowestUsableColor);
          index = wrapInt (rd (topIndices p) lowestUsableColor + 1)
      in (\<lparr>PathColor = lowestUsableColor, PathIndex = index\<rparr>,
          \<lparr>topIndices = AList.update lowestUsableColor index (topIndices p),
           highestUsedColor =
             (if highestUsedColor p < lowestUsableColor then lowestUsableColor
              else highestUsedColor p)\<rparr>))"

section \<open>The version store\<close>

text \<open>
  Modelled from the spec: the Version Store (\<open>db.RepoVersions()\<close>, with \<open>Lookup\<close> and
  \<open>CreateIfNotExists\<close>), whose code is not among the sources. The store is a table of
  RepoVersions; \<open>Lookup\<close> gives the row of a (repositoryID, externalID) or not-found;
  \<open>CreateIfNotExists\<close> adds the row unless one with that key is there, and can be called
  twice with the same key without a duplicate or an error. A round trip can also fail
  (the spec's TransientError): \<open>down\<close> holds the external ids whose round trips fail.
\<close>

type_synonym Store = "RepoVersion list"

definition hasKey :: "int \<Rightarrow> string \<Rightarrow> RepoVersion \<Rightarrow> bool" where
  "hasKey repoID ext v \<longleftrightarrow> RepoID v = repoID \<and> ExternalID v = ext"

definition Lookup :: "(string \<Rightarrow> bool) \<Rightarrow> Store \<Rightarrow> int \<Rightarrow> string \<Rightarrow> error + RepoVersion option" where
  "Lookup down db repoID ext =
     (if down ext then Inl TransientError else Inr (find (hasKey repoID ext) db))"

definition CreateIfNotExists :: "(string \<Rightarrow> bool) \<Rightarrow> Store \<Rightarrow> RepoVersion \<Rightarrow> error + Store" where
  "CreateIfNotExists down db v =
     (if down (ExternalID v) then Inl TransientError
      else Inr (if list_ex (hasKey (RepoID v) (ExternalID v)) db then db else db @ [v]))"

section \<open>The commit source\<close>

text \<open>
  The cloned repository is the list of the commits that \<open>Log\<close> yields from the branch head,
  in the order it yields them; \<open>CommitObject\<close> finds a commit of it by hash.
\<close>

definition CommitObject :: "Commit list \<Rightarrow> Hash \<Rightarrow> error + Commit" where
  "CommitObject gitRepo h =
     (case find (\<lambda>c. Hash c = h) gitRepo of None \<Rightarrow> Inl GitError | Some c \<Rightarrow> Inr c)"

section \<open>The bag\<close>

record bag =
  stack :: "Commit list"

definition notEmpty :: "bag \<Rightarrow> bool" where
  "notEmpty b \<longleftrightarrow> length (stack b) > 0"

definition pop :: "bag \<Rightarrow> (Commit \<times> bag) option" where
  "pop b =
     (if stack b = [] then None
      else Some (stack b ! (length (stack b) - 1), b\<lparr>stack := take (length (stack b) - 1) (stack b)\<rparr>))"

definition add :: "bag \<Rightarrow> Commit \<Rightarrow> bag" where
  "add b c = b\<lparr>stack := stack b @ [c]\<rparr>"

section \<open>Clone\<close>

text \<open>Step 2: one pass over the log builds the children relation and the list of roots.\<close>

definition visit :: "Commit \<Rightarrow> (Hash \<Rightarrow> Hash list) \<times> Hash list \<Rightarrow> (Hash \<Rightarrow> Hash list) \<times> Hash list" where
  "visit c g =
     (case g of (children, roots) \<Rightarrow>
        (fold (\<lambda>h children. children(h := children h @ [Hash c])) (ParentHashes c) children,
         if length (ParentHashes c) = 0 then roots @ [Hash c] else roots))"

definition buildGraph :: "Commit list \<Rightarrow> (Hash \<Rightarrow> Hash list) \<times> Hash list" where
  "buildGraph gitLog = fold visit gitLog (\<lambda>h. [], [])"

text \<open>Step 3, the seeding of the bag with the roots.\<close>

fun seed :: "Commit list \<Rightarrow> Hash list \<Rightarrow> bag \<Rightarrow> error + bag" where
  "seed gitRepo [] toBeProcessed = Inr toBeProcessed"
| "seed gitRepo (r # rs) toBeProcessed =
     (case CommitObject gitRepo r of
        Inl e \<Rightarrow> Inl e
      | Inr c \<Rightarrow> seed gitRepo rs (add toBeProcessed c))"

text \<open>The loop over the parents of the popped commit.\<close>

fun lookupParents ::
  "(string \<Rightarrow> bool) \<Rightarrow> Store \<Rightarrow> int \<Rightarrow> Hash list \<Rightarrow> RepoVersion list \<Rightarrow> error + RepoVersion list" where
  "lookupParents down db repoID [] parents = Inr parents"
| "lookupParents down db repoID (h # hs) parents =
     (case Lookup down db repoID (EncodeToString h) of
        Inl e \<Rightarrow> Inl e
      | Inr None \<Rightarrow> Inl (IntegrityError (EncodeToString h))
      | Inr (Some p) \<Rightarrow> lookupParents down db repoID hs (parents @ [p]))"

text \<open>The RepoVersion of the popped commit, and the allocator after it.\<close>

definition newVersion :: "int \<Rightarrow> Commit \<Rightarrow> RepoVersion list \<Rightarrow> pathCoverage \<Rightarrow> RepoVersion \<times> pathCoverage" where
  "newVersion repoID c parents paths =
     (let reachability = aggregateReachability parents
      in case TakeIndex paths reachability of (coverage, paths') \<Rightarrow>
           let reachability = AList.update (PathColor coverage) (PathIndex coverage) reachability
           in (\<lparr>RepoID = repoID, ExternalID = EncodeToString (Hash c),
                PathCoverage = coverage, Reachability = reachability\<rparr>, paths'))"

text \<open>The loop over the children of the popped commit.\<close>

fun pushReady :: "Commit list \<Rightarrow> Hash set \<Rightarrow> Hash list \<Rightarrow> bag \<Rightarrow> error + bag" where
  "pushReady gitRepo processed [] toBeProcessed = Inr toBeProcessed"
| "pushReady gitRepo processed (ch # chs) toBeProcessed =
     (if ch \<in> processed then pushReady gitRepo processed chs toBeProcessed
      else case CommitObject gitRepo ch of
        Inl e \<Rightarrow> Inl e
      | Inr chCommit \<Rightarrow>
          pushReady gitRepo processed chs
            (if list_all (\<lambda>ph. ph \<in> processed) (ParentHashes chCommit)
             then add toBeProcessed chCommit else toBeProcessed))"

record state =
  db :: Store
  paths :: pathCoverage
  toBeProcessed :: bag
  processed :: "Hash set"

text \<open>One pass of the main loop; an error comes with the store as it is at the return.\<close>

definition iteration ::
  "(string \<Rightarrow> bool) \<Rightarrow> int \<Rightarrow> Commit list \<Rightarrow> (Hash \<Rightarrow> Hash list) \<Rightarrow> state \<Rightarrow> (Store \<times> error) + state" where
  "iteration down repoID gitRepo children s =
     (case pop (toBeProcessed s) of
        None \<Rightarrow> Inl (db s, Panic)
      | Some (c, b) \<Rightarrow>
          (case lookupParents down (db s) repoID (ParentHashes c) [] of
             Inl e \<Rightarrow> Inl (db s, e)
           | Inr parents \<Rightarrow>
               (case newVersion repoID c parents (paths s) of (v, paths') \<Rightarrow>
                  (case CreateIfNotExists down (db s) v of
                     Inl e \<Rightarrow> Inl (db s, e)
                   | Inr db' \<Rightarrow>
                       (let processed' = insert (Hash c) (processed s)
                        in case pushReady gitRepo processed' (children (Hash c)) b of
                             Inl e \<Rightarrow> Inl (db', e)
                           | Inr b' \<Rightarrow>
                               Inr \<lparr>db = db', paths = paths', toBeProcessed = b',
                                    processed = processed'\<rparr>)))))"

partial_function (option) loop ::
  "(string \<Rightarrow> bool) \<Rightarrow> int \<Rightarrow> Commit list \<Rightarrow> (Hash \<Rightarrow> Hash list) \<Rightarrow> state \<Rightarrow> (Store \<times> error option) option" where
  "loop down repoID gitRepo children s =
     (if notEmpty (toBeProcessed s) then
        (case iteration down repoID gitRepo children s of
           Inl (d, e) \<Rightarrow> Some (d, Some e)
         | Inr s' \<Rightarrow> loop down repoID gitRepo children s')
      else Some (db s, None))"

declare loop.simps [code]

definition initPaths :: pathCoverage where
  "initPaths = \<lparr>topIndices = [], highestUsedColor = 0\<rparr>"

text \<open>The state in which the main loop is entered: the bag of roots and a fresh allocator.\<close>

definition startState :: "Store \<Rightarrow> bag \<Rightarrow> state" where
  "startState db0 b = \<lparr>db = db0, paths = initPaths, toBeProcessed = b, processed = {}\<rparr>"

text \<open>
  \<open>Clone\<close> from the store \<open>db0\<close>. \<open>source\<close> is \<open>None\<close> when the clone, the branch
  lookup or the log fails, and the log otherwise. The result is the store at the return
  and the error returned, if any; \<open>None\<close> stands for a loop that does not end.
\<close>

definition Clone ::
  "(string \<Rightarrow> bool) \<Rightarrow> Store \<Rightarrow> int \<Rightarrow> Commit list option \<Rightarrow> (Store \<times> error option) option" where
  "Clone down db0 repoID source =
     (case source of
        None \<Rightarrow> Some (db0, Some GitError)
      | Some gitLog \<Rightarrow>
          (case buildGraph gitLog of (children, roots) \<Rightarrow>
             if length roots = 0 then Some (db0, Some EmptyGraphError)
             else case seed gitLog roots \<lparr>stack = []\<rparr> of
                    Inl e \<Rightarrow> Some (db0, Some e)
                  | Inr b \<Rightarrow>
                      loop down repoID gitLog children (startState db0 b)))"

section \<open>Notions of the specification\<close>

text \<open>
  The entries that the parents carry, in the order \<open>aggregateReachability\<close> visits them;
  the values carried for one color; and the pointwise maximum of the parents' maps: the
  maximum of the values carried for a color, and no entry for a color that no parent carries.
\<close>

definition entries :: "RepoVersion list \<Rightarrow> (int \<times> int) list" where
  "entries parents = concat (map Reachability parents)"

definition carried :: "RepoVersion list \<Rightarrow> int \<Rightarrow> int list" where
  "carried parents c = map snd (filter (\<lambda>e. fst e = c) (entries parents))"

definition pointwiseMax :: "RepoVersion list \<Rightarrow> int \<Rightarrow> int option" where
  "pointwiseMax parents c =
     (if carried parents c = [] then None else Some (Max (set (carried parents c))))"



text \<open>
  The key under which the store holds a version, and a store without duplicates.
\<close>

definition key :: "RepoVersion \<Rightarrow> int \<times> string" where
  "key v = (RepoID v, ExternalID v)"

definition noDuplicates :: "Store \<Rightarrow> bool" where
  "noDuplicates store \<longleftrightarrow> distinct (map key store)"

text \<open>
  Modelled from the spec: the allocator state that section 5 asks for on resume, the
  maximum index per color across all persisted records and the largest color among them.
  The source has no such reconstruction.
\<close>

definition reconstructed :: "Store \<Rightarrow> pathCoverage" where
  "reconstructed store =
     \<lparr>topIndices =
        fold (\<lambda>v t. raise (PathColor (PathCoverage v), PathIndex (PathCoverage v)) t) store [],
      highestUsedColor = fold (\<lambda>v h. max h (PathColor (PathCoverage v))) store 0\<rparr>"

section \<open>Scenarios\<close>

text \<open>A store whose round trips all succeed, and one whose round trips for commit B fail.\<close>

definition up :: "string \<Rightarrow> bool" where
  "up ext = False"

definition hashOf :: "8 word \<Rightarrow> Hash" where
  "hashOf b = replicate 19 0 @ [b]"

text \<open>
  The diamond of the spec: root R, children A and B of R, merge M of A and B. With the log
  in the order M, B, A, R the bag yields R, A, B, M.
\<close>

definition commitR :: Commit where
  "commitR = \<lparr>Hash = hashOf 1, ParentHashes = []\<rparr>"

definition commitA :: Commit where
  "commitA = \<lparr>Hash = hashOf 2, ParentHashes = [hashOf 1]\<rparr>"

definition commitB :: Commit where
  "commitB = \<lparr>Hash = hashOf 3, ParentHashes = [hashOf 1]\<rparr>"

definition commitM :: Commit where
  "commitM = \<lparr>Hash = hashOf 4, ParentHashes = [hashOf 2, hashOf 3]\<rparr>"

definition diamondLog :: "Commit list" where
  "diamondLog = [commitM, commitB, commitA, commitR]"

definition version :: "Commit \<Rightarrow> int \<Rightarrow> int \<Rightarrow> intmap \<Rightarrow> RepoVersion" where
  "version c color index reachability =
     \<lparr>RepoID = 7, ExternalID = EncodeToString (Hash c),
      PathCoverage = \<lparr>PathColor = color, PathIndex = index\<rparr>, Reachability = reachability\<rparr>"

definition versionR :: RepoVersion where
  "versionR = version commitR 1 1 [(1, 1)]"

definition versionA :: RepoVersion where
  "versionA = version commitA 1 2 [(1, 2)]"

definition versionB :: RepoVersion where
  "versionB = version commitB 2 1 [(1, 1), (2, 1)]"

definition versionM :: RepoVersion where
  "versionM = version commitM 1 3 [(1, 3), (2, 1)]"

definition diamondStore :: Store where
  "diamondStore = [versionR, versionA, versionB, versionM]"

definition interrupted :: "string \<Rightarrow> bool" where
  "interrupted ext \<longleftrightarrow> ext = EncodeToString (Hash commitB)"

text \<open>
  A repository with two branches. The first branch has the head H, a merge of the roots P
  and Q and of T, the child of a third root S; the second branch has the head U, another
  child of T.
\<close>

definition rootP :: Commit where
  "rootP = \<lparr>Hash = hashOf 11, ParentHashes = []\<rparr>"

definition rootQ :: Commit where
  "rootQ = \<lparr>Hash = hashOf 12, ParentHashes = []\<rparr>"

definition rootS :: Commit where
  "rootS = \<lparr>Hash = hashOf 13, ParentHashes = []\<rparr>"

definition commitT :: Commit where
  "commitT = \<lparr>Hash = hashOf 14, ParentHashes = [hashOf 13]\<rparr>"

definition commitH :: Commit where
  "commitH = \<lparr>Hash = hashOf 15, ParentHashes = [hashOf 11, hashOf 12, hashOf 14]\<rparr>"

definition commitU :: Commit where
  "commitU = \<lparr>Hash = hashOf 16, ParentHashes = [hashOf 14]\<rparr>"

definition firstBranchLog :: "Commit list" where
  "firstBranchLog = [commitH, commitT, rootS, rootQ, rootP]"

definition secondBranchLog :: "Commit list" where
  "secondBranchLog = [commitU, commitT, rootS]"

definition firstBranchStore :: Store where
  "firstBranchStore =
     [version rootP 1 1 [(1, 1)], version rootQ 2 1 [(2, 1)], version rootS 3 1 [(3, 1)],
      version commitT 3 2 [(3, 2)], version commitH 1 2 [(1, 2), (2, 1), (3, 2)]]"

definition versionU :: RepoVersion where
  "versionU = version commitU 3 1 [(3, 1)]"

text \<open>
  A strictly linear history over the hashes \<open>hs\<close>, oldest first: the first commit is the
  root and every other commit has the commit before it as its only parent. The versions
  that the claim expects for it: one color, and the indices 1, 2, ... along the history.
\<close>

definition chainCommit :: "Hash list \<Rightarrow> nat \<Rightarrow> Commit" where
  "chainCommit hs j = \<lparr>Hash = hs ! j, ParentHashes = (if j = 0 then [] else [hs ! (j - 1)])\<rparr>"

definition linearHistory :: "Hash list \<Rightarrow> Commit list" where
  "linearHistory hs = map (chainCommit hs) [0..<length hs]"

definition chainVersion :: "int \<Rightarrow> Hash list \<Rightarrow> nat \<Rightarrow> RepoVersion" where
  "chainVersion repoID hs j =
     \<lparr>RepoID = repoID, ExternalID = EncodeToString (hs ! j),
      PathCoverage = \<lparr>PathColor = 1, PathIndex = int j + 1\<rparr>,
      Reachability = [(1, int j + 1)]\<rparr>"

text \<open>
  A store agrees with the history when every version that it holds for a commit of the
  history is the version expected for that commit; it may hold none of them, some of them,
  and versions of other commits and repositories. The store after the first \<open>n\<close> commits
  of the history are ingested into the store \<open>db0\<close>: the versions of the commits absent
  from \<open>db0\<close> are added at its end, in the order of the history.
\<close>

definition agrees :: "int \<Rightarrow> Hash list \<Rightarrow> Store \<Rightarrow> bool" where
  "agrees repoID hs store \<longleftrightarrow>
     list_all (\<lambda>v. list_all (\<lambda>j. hasKey repoID (EncodeToString (hs ! j)) v \<longrightarrow>
                                 v = chainVersion repoID hs j) [0..<length hs]) store"

definition absent :: "int \<Rightarrow> Hash list \<Rightarrow> Store \<Rightarrow> nat \<Rightarrow> nat list" where
  "absent repoID hs db0 n =
     filter (\<lambda>j. \<not> list_ex (hasKey repoID (EncodeToString (hs ! j))) db0) [0..<n]"

definition chainStore :: "int \<Rightarrow> Hash list \<Rightarrow> Store \<Rightarrow> nat \<Rightarrow> Store" where
  "chainStore repoID hs db0 n = db0 @ map (chainVersion repoID hs) (absent repoID hs db0 n)"

text \<open>The state of the main loop after the first \<open>j\<close> commits of a linear history.\<close>

definition chainPaths :: "nat \<Rightarrow> pathCoverage" where
  "chainPaths j = (if j = 0 then initPaths else \<lparr>topIndices = [(1, int j)], highestUsedColor = 1\<rparr>)"

definition chainState :: "int \<Rightarrow> Hash list \<Rightarrow> Store \<Rightarrow> nat \<Rightarrow> state" where
  "chainState repoID hs db0 j =
     \<lparr>db = chainStore repoID hs db0 j, paths = chainPaths j,
      toBeProcessed = \<lparr>stack = (if j < length hs then [chainCommit hs j] else [])\<rparr>,
      processed = set (take j hs)\<rparr>"

text \<open>
  The measure by which the main loop ends: the hashes of the repository and of the bag that
  are not processed yet, then the commits of the bag that are processed already.
\<close>

definition unprocessed :: "Commit list \<Rightarrow> state \<Rightarrow> nat" where
  "unprocessed gitRepo s =
     card (Hash ` (set gitRepo \<union> set (stack (toBeProcessed s))) - processed s)"

definition repeated :: "state \<Rightarrow> nat" where
  "repeated s = length (filter (\<lambda>c. Hash c \<in> processed s) (stack (toBeProcessed s)))"

text \<open>A version that carries its own index at its own color.\<close>

definition selfReaching :: "RepoVersion \<Rightarrow> bool" where
  "selfReaching v \<longleftrightarrow>
     map_of (Reachability v) (PathColor (PathCoverage v)) = Some (PathIndex (PathCoverage v))"

section \<open>Maps with default 0\<close>

lemma rd_Nil: "rd [] c = 0" by (simp add: rd_def)

lemma rd_update: "rd (AList.update k v m) c = (if c = k then v else rd m c)"
  by (simp add: rd_def update_conv')

lemma map_of_rd: "map_of m c = Some v \<Longrightarrow> rd m c = v"
  by (simp add: rd_def)

lemma rd_cases: "rd m c = 0 \<or> (c, rd m c) \<in> set m"
  by (auto simp: rd_def dest: map_of_SomeD split: option.splits)

lemma rd_distinct: "distinct (map fst m) \<Longrightarrow> (c, i) \<in> set m \<Longrightarrow> rd m c = i"
  by (simp add: rd_def)

lemma rd_raise: "rd (raise (k, i) r) c = (if c = k then max i (rd r c) else rd r c)"
  by (simp add: raise_def Let_def rd_update)

lemma finite_carried: "finite {i. (c, i) \<in> set es}"
  by (rule finite_subset [of _ "snd ` set es"]) force+

lemma Max_insert_insert:
  fixes a :: int
  assumes "finite S"
  shows "Max (insert (max i a) S) = Max (insert a (insert i S))"
proof (cases "S = {}")
  case True
  then show ?thesis by (simp add: max.commute)
next
  case False
  with assms show ?thesis by (simp add: max.assoc max.commute max.left_commute)
qed

lemma rd_fold_raise: "rd (fold raise es r) c = Max (insert (rd r c) {i. (c, i) \<in> set es})"
proof (induction es arbitrary: r)
  case Nil
  then show ?case by simp
next
  case (Cons e es)
  obtain k i where e: "e = (k, i)" by (cases e)
  let ?S = "{j. (c, j) \<in> set es}"
  have step: "rd (fold raise (e # es) r) c = Max (insert (rd (raise (k, i) r) c) ?S)"
    using Cons.IH [of "raise e r"] e by simp
  show ?case
  proof (cases "c = k")
    case True
    have "{j. (c, j) \<in> set (e # es)} = insert i ?S"
      using e True by auto
    moreover have "Max (insert (max i (rd r c)) ?S) = Max (insert (rd r c) (insert i ?S))"
      by (rule Max_insert_insert) (rule finite_carried)
    ultimately show ?thesis
      using step True by (simp only: rd_raise simp_thms if_True)
  next
    case False
    then have "{j. (c, j) \<in> set (e # es)} = ?S"
      using e by auto
    then show ?thesis
      using step False by (simp only: rd_raise simp_thms if_False)
  qed
qed

lemma map_of_raise_None:
  "map_of (raise (k, i) r) c = None \<longleftrightarrow> map_of r c = None \<and> \<not> (c = k \<and> rd r k < i)"
  by (auto simp: raise_def Let_def update_conv')

lemma map_of_fold_raise_None:
  "map_of (fold raise es r) c = None \<longleftrightarrow>
     map_of r c = None \<and> (\<forall>i. (c, i) \<in> set es \<longrightarrow> i \<le> 0)"
proof (induction es arbitrary: r)
  case Nil
  then show ?case by simp
next
  case (Cons e es)
  obtain k i where e: "e = (k, i)" by (cases e)
  have "map_of r c = None \<Longrightarrow> rd r c = 0" by (simp add: rd_def)
  then show ?case
    using Cons.IH [of "raise e r"] e by (auto simp: map_of_raise_None)
qed

lemma fold_fold_concat: "fold (\<lambda>p. fold f (g p)) ps r = fold f (concat (map g ps)) r"
  by (induction ps arbitrary: r) simp_all

lemma aggregate_entries: "aggregateReachability parents = fold raise (entries parents) []"
  by (simp add: aggregateReachability_def entries_def fold_fold_concat)

lemma distinct_fold_raise: "distinct (map fst r) \<Longrightarrow> distinct (map fst (fold raise es r))"
  by (induction es arbitrary: r) (auto simp: raise_def Let_def distinct_update split: prod.splits)

lemma distinct_aggregate: "distinct (map fst (aggregateReachability parents))"
  by (simp add: aggregate_entries distinct_fold_raise)

lemma rd_aggregate:
  "rd (aggregateReachability parents) c = Max (insert 0 {i. (c, i) \<in> set (entries parents)})"
  by (simp add: aggregate_entries rd_fold_raise rd_Nil)

lemma rd_aggregate_ge:
  assumes "p \<in> set parents" "(c, i) \<in> set (Reachability p)"
  shows "i \<le> rd (aggregateReachability parents) c"
proof -
  have "(c, i) \<in> set (entries parents)"
    using assms by (auto simp: entries_def)
  then show ?thesis
    by (simp add: rd_aggregate finite_carried)
qed

lemma map_of_aggregate:
  "map_of (aggregateReachability parents) c =
     (if \<forall>i. (c, i) \<in> set (entries parents) \<longrightarrow> i \<le> 0 then None
      else Some (Max (insert 0 {i. (c, i) \<in> set (entries parents)})))"
proof (cases "map_of (aggregateReachability parents) c")
  case None
  then show ?thesis
    by (simp add: aggregate_entries map_of_fold_raise_None)
next
  case (Some v)
  then have "\<not> (\<forall>i. (c, i) \<in> set (entries parents) \<longrightarrow> i \<le> 0)"
    using map_of_fold_raise_None [of "entries parents" "[]" c]
    by (simp add: aggregate_entries)
  moreover have "v = Max (insert 0 {i. (c, i) \<in> set (entries parents)})"
    using map_of_rd [OF Some] by (simp add: rd_aggregate)
  ultimately show ?thesis
    using Some by simp
qed

lemma aggregate_positive:
  assumes "(c, v) \<in> set (aggregateReachability parents)"
  shows "0 < v"
proof -
  have m: "map_of (aggregateReachability parents) c = Some v"
    using assms distinct_aggregate by simp
  then obtain i where i: "(c, i) \<in> set (entries parents)" "0 < i"
    by (auto simp: map_of_aggregate split: if_splits)
  have "v = Max (insert 0 {i. (c, i) \<in> set (entries parents)})"
    using m by (auto simp: map_of_aggregate split: if_splits)
  moreover have "i \<le> Max (insert 0 {i. (c, i) \<in> set (entries parents)})"
    using i by (simp add: finite_carried)
  ultimately show ?thesis
    using i by simp
qed

lemma aggregate_set:
  assumes "set parents' = set parents"
  shows "map_of (aggregateReachability parents') = map_of (aggregateReachability parents)"
proof -
  have "set (entries parents') = set (entries parents)"
    using assms by (simp add: entries_def)
  then show ?thesis
    by (simp add: fun_eq_iff map_of_aggregate)
qed

lemma set_carried: "set (carried parents c) = {i. (c, i) \<in> set (entries parents)}"
  by (force simp: carried_def)

text \<open>
  Claim C10, as amended. When every value in the parents' reachability maps is at least 1,
  \<open>aggregateReachability\<close> is the pointwise maximum of these maps: a color carried by some
  parent is mapped to the maximum of the values carried for it, and no other color has an
  entry. The result, as a map, does not depend on the order of the parents, and no entry of
  the result is 0.
\<close>

theorem aggregateReachability_pointwise_max:
  assumes "\<forall>p\<in>set parents. \<forall>e\<in>set (Reachability p). 1 \<le> snd e"
    and "mset parents' = mset parents"
  shows "(\<forall>c. map_of (aggregateReachability parents) c = pointwiseMax parents c) \<and>
         map_of (aggregateReachability parents') = map_of (aggregateReachability parents) \<and>
         (\<forall>e\<in>set (aggregateReachability parents). snd e \<noteq> 0)"
proof (intro conjI allI ballI)
  fix c
  have pos: "1 \<le> i" if "(c, i) \<in> set (entries parents)" for i
    using that assms(1) by (fastforce simp: entries_def)
  show "map_of (aggregateReachability parents) c = pointwiseMax parents c"
  proof (cases "carried parents c = []")
    case True
    then have "{i. (c, i) \<in> set (entries parents)} = {}"
      using set_carried [of parents c] by simp
    then show ?thesis
      using True by (simp add: map_of_aggregate pointwiseMax_def)
  next
    case False
    then obtain i where i: "(c, i) \<in> set (entries parents)"
      using set_carried [of parents c] by (cases "carried parents c") auto
    let ?S = "{i. (c, i) \<in> set (entries parents)}"
    have ne: "?S \<noteq> {}" using i by auto
    have "0 \<le> Max ?S"
      using i pos [OF i] Max_ge [OF finite_carried, of i c "entries parents"] by simp
    then have "Max (insert 0 ?S) = Max ?S"
      using ne by (simp add: finite_carried max_def)
    moreover have "\<not> (\<forall>i. (c, i) \<in> set (entries parents) \<longrightarrow> i \<le> 0)"
      using i pos [OF i] by force
    ultimately show ?thesis
      using False by (simp add: map_of_aggregate pointwiseMax_def set_carried)
  qed
next
  show "map_of (aggregateReachability parents') = map_of (aggregateReachability parents)"
    using assms(2) by (intro aggregate_set) (metis set_mset_mset)
next
  fix e
  assume "e \<in> set (aggregateReachability parents)"
  then show "snd e \<noteq> 0"
    using aggregate_positive [of "fst e" "snd e" parents] by simp
qed

section \<open>TakeIndex and the version of one commit\<close>

lemma wrapInt_id: "minInt \<le> x \<Longrightarrow> x \<le> maxInt \<Longrightarrow> wrapInt x = x"
  by (simp add: wrapInt_def minInt_def maxInt_def)






lemma TakeIndex_index:
  "TakeIndex p agg = (cov, p') \<Longrightarrow>
     PathIndex cov = wrapInt (rd (topIndices p) (PathColor cov) + 1)"
  by (auto simp: TakeIndex_def Let_def)



lemma newVersion_fields:
  assumes "newVersion repoID c parents pc = (v, pc')"
  shows "RepoID v = repoID" "ExternalID v = EncodeToString (Hash c)"
    "TakeIndex pc (aggregateReachability parents) = (PathCoverage v, pc')"
    "Reachability v =
       AList.update (PathColor (PathCoverage v)) (PathIndex (PathCoverage v))
         (aggregateReachability parents)"
  using assms by (auto simp: newVersion_def Let_def split: prod.splits)

text \<open>
  Claim C2. The RepoVersion that \<open>Clone\<close> computes for a commit and passes to
  \<open>CreateIfNotExists\<close> has, in its reachability map, an entry for its own path color, and
  that entry is its own path index.
\<close>

theorem self_reachability:
  "map_of (Reachability (fst (newVersion repoID c parents pc)))
     (PathColor (PathCoverage (fst (newVersion repoID c parents pc)))) =
   Some (PathIndex (PathCoverage (fst (newVersion repoID c parents pc))))"
proof -
  obtain v pc' where v: "newVersion repoID c parents pc = (v, pc')"
    by (cases "newVersion repoID c parents pc")
  show ?thesis
    unfolding v fst_conv by (subst newVersion_fields(4) [OF v]) (simp add: update_conv')
qed

text \<open>
  Claim C3, as amended. Let the indices in \<open>topIndices\<close> be at least 0 and below
  \<open>maxInt\<close>, and let them bound, color by color, the reachability of every parent that the
  store returned. Then for every parent and every entry \<open>(k, i)\<close> of the parent's
  reachability, the version computed for the commit reaches at least \<open>i\<close> on the color
  \<open>k\<close>; so the overwrite of the commit's own entry does not go below a parent's value.
\<close>

theorem monotone_reachability:
  assumes "\<forall>e\<in>set (topIndices pc). 0 \<le> snd e \<and> snd e < maxInt"
    and "\<forall>p\<in>set parents. \<forall>e\<in>set (Reachability p). snd e \<le> rd (topIndices pc) (fst e)"
    and "p \<in> set parents" and "(k, i) \<in> set (Reachability p)"
  shows "i \<le> rd (Reachability (fst (newVersion repoID c parents pc))) k"
proof -
  obtain v pc' where v: "newVersion repoID c parents pc = (v, pc')"
    by (cases "newVersion repoID c parents pc")
  let ?t = "topIndices pc"
  let ?col = "PathColor (PathCoverage v)"
  have mx: "0 < maxInt" by (simp add: maxInt_def)
  have r: "0 \<le> rd ?t ?col" "rd ?t ?col < maxInt"
    using rd_cases [of ?t ?col] assms(1) mx by auto
  have "PathIndex (PathCoverage v) = wrapInt (rd ?t ?col + 1)"
    using newVersion_fields(3) [OF v] by (rule TakeIndex_index)
  then have idx: "PathIndex (PathCoverage v) = rd ?t ?col + 1"
    using r by (simp add: wrapInt_id minInt_def)
  show ?thesis
  proof (cases "k = ?col")
    case True
    have "i \<le> rd ?t k"
      using assms(2,3,4) by force
    then show ?thesis
      using True idx by (simp add: v newVersion_fields(4) [OF v] rd_update)
  next
    case False
    then show ?thesis
      using rd_aggregate_ge [OF assms(3,4)]
      by (simp add: v newVersion_fields(4) [OF v] rd_update)
  qed
qed

section \<open>The loop ends\<close>

lemma CommitObject_found:
  "CommitObject gitRepo h = Inr c \<Longrightarrow> c \<in> set gitRepo \<and> Hash c = h"
  by (auto simp: CommitObject_def find_Some_iff split: option.splits)

lemma pushReady_stack:
  "pushReady gitRepo done chs b = Inr b' \<Longrightarrow>
     \<exists>new. stack b' = stack b @ new \<and> set new \<subseteq> set gitRepo \<and> (\<forall>c\<in>set new. Hash c \<notin> done)"
proof (induction chs arbitrary: b)
  case Nil
  then show ?case by simp
next
  case (Cons ch chs)
  show ?case
  proof (cases "ch \<in> done")
    case True
    with Cons show ?thesis by simp
  next
    case False
    with Cons.prems obtain c where c: "CommitObject gitRepo ch = Inr c"
      by (auto split: sum.splits)
    let ?b = "if list_all (\<lambda>ph. ph \<in> done) (ParentHashes c) then add b c else b"
    from Cons.prems False c have "pushReady gitRepo done chs ?b = Inr b'"
      by simp
    from Cons.IH [OF this] obtain new where
      new: "stack b' = stack ?b @ new" "set new \<subseteq> set gitRepo" "\<forall>c\<in>set new. Hash c \<notin> done"
      by blast
    have "stack ?b = stack b \<or> stack ?b = stack b @ [c]"
      by (simp add: add_def)
    then show ?thesis
    proof
      assume "stack ?b = stack b"
      with new show ?thesis by auto
    next
      assume "stack ?b = stack b @ [c]"
      then have "stack b' = stack b @ (c # new)"
        using new(1) by simp
      moreover have "set (c # new) \<subseteq> set gitRepo" "\<forall>c\<in>set (c # new). Hash c \<notin> done"
        using new(2,3) CommitObject_found [OF c] False by auto
      ultimately show ?thesis by blast
    qed
  qed
qed

lemma iteration_shape:
  assumes "iteration down repoID gitRepo children s = Inr s'"
  shows "\<exists>st c new. stack (toBeProcessed s) = st @ [c] \<and>
           stack (toBeProcessed s') = st @ new \<and> set new \<subseteq> set gitRepo \<and>
           (\<forall>n\<in>set new. Hash n \<notin> processed s') \<and>
           processed s' = insert (Hash c) (processed s)"
proof -
  from assms obtain c b where pop: "pop (toBeProcessed s) = Some (c, b)"
    by (auto simp: iteration_def split: option.splits)
  then have ne: "stack (toBeProcessed s) \<noteq> []"
    and c: "c = last (stack (toBeProcessed s))"
    and b: "stack b = butlast (stack (toBeProcessed s))"
    by (auto simp: pop_def last_conv_nth butlast_conv_take split: if_splits)
  then have st: "stack (toBeProcessed s) = stack b @ [c]"
    by simp
  from assms pop obtain b' where
    pr: "pushReady gitRepo (insert (Hash c) (processed s)) (children (Hash c)) b = Inr b'"
    and s': "toBeProcessed s' = b'" "processed s' = insert (Hash c) (processed s)"
    by (auto simp: iteration_def Let_def split: sum.splits prod.splits)
  from pushReady_stack [OF pr] s' st show ?thesis
    by auto
qed

lemma iteration_decreases:
  assumes "iteration down repoID gitRepo children s = Inr s'"
  shows "(s', s) \<in> measures [unprocessed gitRepo, repeated]"
proof -
  from iteration_shape [OF assms] obtain st c new where
    st: "stack (toBeProcessed s) = st @ [c]"
    and st': "stack (toBeProcessed s') = st @ new"
    and new: "set new \<subseteq> set gitRepo" "\<forall>n\<in>set new. Hash n \<notin> processed s'"
    and pr: "processed s' = insert (Hash c) (processed s)"
    by blast
  let ?U = "Hash ` (set gitRepo \<union> set (stack (toBeProcessed s))) - processed s"
  let ?U' = "Hash ` (set gitRepo \<union> set (stack (toBeProcessed s'))) - processed s'"
  have fin: "finite ?U" by simp
  have sub: "?U' \<subseteq> ?U"
    using st st' new(1) pr by auto
  show ?thesis
  proof (cases "Hash c \<in> processed s")
    case False
    then have "Hash c \<in> ?U" "Hash c \<notin> ?U'"
      using st pr by auto
    with sub have "?U' \<subset> ?U" by blast
    then have "unprocessed gitRepo s' < unprocessed gitRepo s"
      unfolding unprocessed_def using fin by (rule psubset_card_mono [rotated])
    then show ?thesis by simp
  next
    case True
    then have same: "processed s' = processed s"
      using pr by auto
    have le: "unprocessed gitRepo s' \<le> unprocessed gitRepo s"
      unfolding unprocessed_def using fin sub by (rule card_mono)
    have "filter (\<lambda>c. Hash c \<in> processed s) new = []"
      using new(2) same by (simp add: filter_empty_conv)
    then have "repeated s' < repeated s"
      using True by (simp add: repeated_def st st' same)
    with le show ?thesis by auto
  qed
qed

lemma loop_ends: "\<exists>y. loop down repoID gitRepo children s = Some y"
proof (induction s rule: wf_induct_rule [OF wf_measures [of "[unprocessed gitRepo, repeated]"]])
  case (1 s)
  show ?case
  proof (cases "notEmpty (toBeProcessed s)")
    case False
    then show ?thesis by (subst loop.simps) simp
  next
    case True
    show ?thesis
    proof (cases "iteration down repoID gitRepo children s")
      case (Inl de)
      with True show ?thesis
        by (subst loop.simps) (simp split: prod.splits)
    next
      case (Inr s')
      from 1 [OF iteration_decreases [OF Inr]] obtain y where
        "loop down repoID gitRepo children s' = Some y" ..
      with True Inr show ?thesis
        by (subst loop.simps) simp
    qed
  qed
qed

lemma Clone_ends: "\<exists>store e. Clone down db0 repoID source = Some (store, e)"
proof (cases source)
  case None
  then show ?thesis by (simp add: Clone_def)
next
  case (Some gitLog)
  obtain children roots where g: "buildGraph gitLog = (children, roots)"
    by (cases "buildGraph gitLog")
  show ?thesis
  proof (cases "seed gitLog roots \<lparr>stack = []\<rparr>")
    case (Inl e)
    then show ?thesis using Some g by (simp add: Clone_def)
  next
    case (Inr b)
    obtain y where "loop down repoID gitLog children (startState db0 b) = Some y"
      using loop_ends by blast
    then show ?thesis
      using Some g Inr by (cases y) (simp add: Clone_def)
  qed
qed

section \<open>The graph builder\<close>

lemma snd_visit:
  "snd (visit c g) = snd g @ (if ParentHashes c = [] then [Hash c] else [])"
  by (cases g) (simp add: visit_def)

lemma snd_fold_visit:
  "snd (fold visit gitLog g) = snd g @ map Hash (filter (\<lambda>c. ParentHashes c = []) gitLog)"
  by (induction gitLog arbitrary: g) (simp_all add: snd_visit)

lemma roots_buildGraph:
  "snd (buildGraph gitLog) = map Hash (filter (\<lambda>c. ParentHashes c = []) gitLog)"
  by (simp add: buildGraph_def snd_fold_visit)

section \<open>The errors of the loop\<close>

lemma seed_error: "seed gitRepo rs b = Inl e \<Longrightarrow> e = GitError"
  by (induction rs arbitrary: b)
     (auto simp: CommitObject_def split: sum.splits option.splits)

lemma pushReady_error: "pushReady gitRepo done chs b = Inl e \<Longrightarrow> e = GitError"
  by (induction chs arbitrary: b)
     (auto simp: CommitObject_def split: sum.splits option.splits if_splits)

lemma lookupParents_error:
  "lookupParents down store repoID hs acc = Inl e \<Longrightarrow> e \<noteq> EmptyGraphError"
  by (induction hs arbitrary: acc)
     (auto simp: Lookup_def split: sum.splits option.splits if_splits)

lemma CreateIfNotExists_error: "CreateIfNotExists down store v = Inl e \<Longrightarrow> e = TransientError"
  by (auto simp: CreateIfNotExists_def split: if_splits)

lemma iteration_error:
  "iteration down repoID gitRepo children s = Inl (d, e) \<Longrightarrow> e \<noteq> EmptyGraphError"
  by (auto simp: iteration_def Let_def
           dest: lookupParents_error CreateIfNotExists_error pushReady_error
           split: option.splits sum.splits prod.splits)

lemma loop_error:
  assumes "loop down repoID gitRepo children s = Some y"
  shows "snd y \<noteq> Some EmptyGraphError"
  by (rule loop.raw_induct [where P = "\<lambda>_ _ _ _ _ y. snd y \<noteq> Some EmptyGraphError", OF _ assms])
     (auto dest: iteration_error split: if_splits sum.splits prod.splits)

text \<open>
  Claim C7. When no commit of the log is a root, \<open>Clone\<close> returns the error
  \<open>want at least one root commit\<close> and the store is as it was; when the log has a root,
  \<open>Clone\<close> returns, and what it returns is not that error.
\<close>

theorem empty_graph_error:
  "((\<forall>c\<in>set gitLog. ParentHashes c \<noteq> []) \<longrightarrow>
      Clone down db0 repoID (Some gitLog) = Some (db0, Some EmptyGraphError)) \<and>
   ((\<exists>c\<in>set gitLog. ParentHashes c = []) \<longrightarrow>
      (\<exists>store e. Clone down db0 repoID (Some gitLog) = Some (store, e) \<and>
                 e \<noteq> Some EmptyGraphError))"
proof (intro conjI impI)
  assume "\<forall>c\<in>set gitLog. ParentHashes c \<noteq> []"
  then have "filter (\<lambda>c. ParentHashes c = []) gitLog = []"
    by (simp add: filter_empty_conv)
  then have "snd (buildGraph gitLog) = []"
    by (simp add: roots_buildGraph)
  then show "Clone down db0 repoID (Some gitLog) = Some (db0, Some EmptyGraphError)"
    by (auto simp: Clone_def split: prod.splits)
next
  assume "\<exists>c\<in>set gitLog. ParentHashes c = []"
  then have "filter (\<lambda>c. ParentHashes c = []) gitLog \<noteq> []"
    by (simp add: filter_empty_conv)
  then have ne: "snd (buildGraph gitLog) \<noteq> []"
    by (simp add: roots_buildGraph)
  obtain store e where c: "Clone down db0 repoID (Some gitLog) = Some (store, e)"
    using Clone_ends by blast
  have "e \<noteq> Some EmptyGraphError"
  proof
    assume e: "e = Some EmptyGraphError"
    obtain children roots where g: "buildGraph gitLog = (children, roots)"
      by (cases "buildGraph gitLog")
    with ne have r: "roots \<noteq> []" by simp
    show False
    proof (cases "seed gitLog roots \<lparr>stack = []\<rparr>")
      case (Inl e')
      then show ?thesis
        using c e g r seed_error [OF Inl] by (simp add: Clone_def)
    next
      case (Inr b)
      then have "loop down repoID gitLog children (startState db0 b) = Some (store, Some EmptyGraphError)"
        using c e g r by (simp add: Clone_def)
      from loop_error [OF this] show ?thesis by simp
    qed
  qed
  with c show "\<exists>store e. Clone down db0 repoID (Some gitLog) = Some (store, e) \<and>
                 e \<noteq> Some EmptyGraphError"
    by blast
qed

section \<open>A missing parent\<close>

lemma lookupParents_missing:
  assumes "\<forall>h'\<in>set pre. \<exists>p. Lookup down store repoID (EncodeToString h') = Inr (Some p)"
    and "Lookup down store repoID (EncodeToString h) = Inr None"
  shows "lookupParents down store repoID (pre @ h # post) acc =
           Inl (IntegrityError (EncodeToString h))"
  using assms by (induction pre arbitrary: acc) auto

lemma pop_last: "stack b = st @ [c] \<Longrightarrow> pop b = Some (c, b\<lparr>stack := st\<rparr>)"
  by (simp add: pop_def)

text \<open>
  Claim C8. Let \<open>c\<close> be the commit on top of the bag. If the lookups of the parents of
  \<open>c\<close> before \<open>h\<close> find their versions and the lookup of the parent \<open>h\<close> returns
  not-found, the loop ends at once with the error \<open>expected to find h in database\<close>: the
  store is unchanged, so nothing is persisted for \<open>c\<close>, and no other commit of the bag is
  processed.
\<close>

theorem missing_parent_is_fatal:
  assumes "stack (toBeProcessed s) = st @ [c]"
    and "ParentHashes c = pre @ h # post"
    and "\<forall>h'\<in>set pre. \<exists>p. Lookup down (db s) repoID (EncodeToString h') = Inr (Some p)"
    and "Lookup down (db s) repoID (EncodeToString h) = Inr None"
  shows "loop down repoID gitRepo children s =
           Some (db s, Some (IntegrityError (EncodeToString h)))"
proof -
  have "iteration down repoID gitRepo children s =
          Inl (db s, IntegrityError (EncodeToString h))"
    using lookupParents_missing [OF assms(3,4), of post "[]"] assms(1,2)
    by (simp add: iteration_def pop_last)
  moreover have "notEmpty (toBeProcessed s)"
    using assms(1) by (simp add: notEmpty_def)
  ultimately show ?thesis
    by (subst loop.simps) simp
qed

section \<open>Running Clone again\<close>

lemma find_hasKey: "find (hasKey repoID ext) store \<noteq> None \<longleftrightarrow> (repoID, ext) \<in> set (map key store)"
  by (induction store) (auto simp: hasKey_def key_def)

lemma list_ex_hasKey: "list_ex (hasKey repoID ext) store \<longleftrightarrow> (repoID, ext) \<in> set (map key store)"
  by (induction store) (auto simp: hasKey_def key_def)

lemma CreateIfNotExists_keys:
  assumes "CreateIfNotExists down store v = Inr store'"
  shows "set (map key store') = insert (key v) (set (map key store))"
    and "noDuplicates store \<Longrightarrow> noDuplicates store'"
    and "\<not> down (ExternalID v)"
  using assms
  by (auto simp: CreateIfNotExists_def list_ex_hasKey noDuplicates_def key_def split: if_splits)

lemma CreateIfNotExists_present:
  assumes "\<not> down (ExternalID v)" and "key v \<in> set (map key store)"
  shows "CreateIfNotExists down store v = Inr store"
  using assms by (simp add: CreateIfNotExists_def list_ex_hasKey key_def)

lemma lookupParents_superset:
  assumes "lookupParents down store repoID hs acc = Inr ps"
    and "set (map key store) \<subseteq> set (map key store2)"
  shows "\<exists>ps2. lookupParents down store2 repoID hs acc2 = Inr ps2"
  using assms(1)
proof (induction hs arbitrary: acc acc2)
  case Nil
  then show ?case by simp
next
  case (Cons h hs)
  from Cons.prems obtain p where
    p: "Lookup down store repoID (EncodeToString h) = Inr (Some p)"
    and rest: "lookupParents down store repoID hs (acc @ [p]) = Inr ps"
    by (auto split: sum.splits option.splits)
  from p have up: "\<not> down (EncodeToString h)"
    and "find (hasKey repoID (EncodeToString h)) store \<noteq> None"
    by (auto simp: Lookup_def split: if_splits)
  then have "(repoID, EncodeToString h) \<in> set (map key store2)"
    using assms(2) by (auto simp only: find_hasKey)
  then obtain p2 where "find (hasKey repoID (EncodeToString h)) store2 = Some p2"
    using find_hasKey [of repoID "EncodeToString h" store2] by auto
  then have "Lookup down store2 repoID (EncodeToString h) = Inr (Some p2)"
    using up by (simp add: Lookup_def)
  then show ?case
    using Cons.IH [OF rest, of "acc2 @ [p2]"] by simp
qed

lemma newVersion_key: "key (fst (newVersion repoID c ps pc)) = (repoID, EncodeToString (Hash c))"
  by (cases "newVersion repoID c ps pc") (simp add: key_def newVersion_fields(1,2))

lemma iteration_Inr_keys:
  assumes "iteration down repoID gitRepo children s = Inr s'"
  shows "set (map key (db s)) \<subseteq> set (map key (db s'))"
    and "noDuplicates (db s) \<Longrightarrow> noDuplicates (db s')"
  using assms
  by (auto simp: iteration_def Let_def dest: CreateIfNotExists_keys
           split: option.splits sum.splits prod.splits)

lemma iteration_Inl_keys:
  assumes "iteration down repoID gitRepo children s = Inl (d, e)"
  shows "set (map key (db s)) \<subseteq> set (map key d)"
    and "noDuplicates (db s) \<Longrightarrow> noDuplicates d"
  using assms
  by (auto simp: iteration_def Let_def dest: CreateIfNotExists_keys
           split: option.splits sum.splits prod.splits)

lemma iteration_again:
  assumes it: "iteration down repoID gitRepo children s = Inr s'"
    and sub: "set (map key (db s')) \<subseteq> set (map key store)"
  shows "\<exists>pc'. iteration down repoID gitRepo children (s\<lparr>db := store, paths := pc\<rparr>) =
                 Inr (s'\<lparr>db := store, paths := pc'\<rparr>)"
proof -
  from it obtain c b where pop: "pop (toBeProcessed s) = Some (c, b)"
    by (auto simp: iteration_def split: option.splits)
  from it pop obtain ps where ps: "lookupParents down (db s) repoID (ParentHashes c) [] = Inr ps"
    by (auto simp: iteration_def split: sum.splits)
  obtain v pc1 where v: "newVersion repoID c ps (paths s) = (v, pc1)"
    by (cases "newVersion repoID c ps (paths s)")
  from it pop ps v obtain store1 where
    cr: "CreateIfNotExists down (db s) v = Inr store1"
    by (auto simp: iteration_def split: sum.splits)
  from it pop ps v cr obtain b' where
    pr: "pushReady gitRepo (insert (Hash c) (processed s)) (children (Hash c)) b = Inr b'"
    and s': "s' = \<lparr>db = store1, paths = pc1, toBeProcessed = b',
                   processed = insert (Hash c) (processed s)\<rparr>"
    by (auto simp: iteration_def Let_def split: sum.splits)
  have sub0: "set (map key (db s)) \<subseteq> set (map key store)"
    using iteration_Inr_keys(1) [OF it] sub by blast
  obtain ps2 where ps2: "lookupParents down store repoID (ParentHashes c) [] = Inr ps2"
    using lookupParents_superset [OF ps sub0] by blast
  obtain v2 pc2 where v2: "newVersion repoID c ps2 pc = (v2, pc2)"
    by (cases "newVersion repoID c ps2 pc")
  have k: "key v2 = key v"
    using newVersion_key [of repoID c ps2 pc] newVersion_key [of repoID c ps "paths s"] v v2
    by simp
  have "key v \<in> set (map key store1)"
    using CreateIfNotExists_keys(1) [OF cr] by simp
  then have "key v2 \<in> set (map key store)"
    using k sub s' by auto
  moreover have "\<not> down (ExternalID v2)"
    using CreateIfNotExists_keys(3) [OF cr] k by (simp add: key_def)
  ultimately have cr2: "CreateIfNotExists down store v2 = Inr store"
    by (rule CreateIfNotExists_present [rotated])
  have "iteration down repoID gitRepo children (s\<lparr>db := store, paths := pc\<rparr>) =
          Inr (s'\<lparr>db := store, paths := pc2\<rparr>)"
    using pop ps2 v2 cr2 pr s' by (simp add: iteration_def)
  then show ?thesis ..
qed

lemma iteration_again_error:
  assumes it: "iteration down repoID gitRepo children s = Inl (d, e)"
  shows "iteration down repoID gitRepo children (s\<lparr>db := d, paths := pc\<rparr>) = Inl (d, e)"
proof (cases "pop (toBeProcessed s)")
  case None
  with it show ?thesis by (simp add: iteration_def)
next
  case (Some cb)
  obtain c b where cb: "cb = (c, b)" by (cases cb)
  note pop = Some [unfolded cb]
  show ?thesis
  proof (cases "lookupParents down (db s) repoID (ParentHashes c) []")
    case (Inl e')
    with it pop show ?thesis by (simp add: iteration_def)
  next
    case (Inr ps)
    obtain v pc1 where v: "newVersion repoID c ps (paths s) = (v, pc1)"
      by (cases "newVersion repoID c ps (paths s)")
    show ?thesis
    proof (cases "CreateIfNotExists down (db s) v")
      case (Inl e')
      with it pop Inr v have d: "d = db s" and e: "e = e'"
        by (simp_all add: iteration_def)
      obtain v2 pc2 where v2: "newVersion repoID c ps pc = (v2, pc2)"
        by (cases "newVersion repoID c ps pc")
      have "ExternalID v2 = ExternalID v"
        using newVersion_fields(2) [OF v] newVersion_fields(2) [OF v2] by simp
      then have "CreateIfNotExists down (db s) v2 = Inl e'"
        using Inl by (auto simp: CreateIfNotExists_def split: if_splits)
      then show ?thesis
        using pop Inr v2 d e by (simp add: iteration_def)
    next
      case store1: (Inr store1)
      from it pop Inr v store1 have d: "d = store1"
        and pr: "pushReady gitRepo (insert (Hash c) (processed s)) (children (Hash c)) b = Inl e"
        by (auto simp: iteration_def Let_def split: sum.splits)
      have sub: "set (map key (db s)) \<subseteq> set (map key store1)"
        using CreateIfNotExists_keys(1) [OF store1] by auto
      obtain ps2 where ps2: "lookupParents down store1 repoID (ParentHashes c) [] = Inr ps2"
        using lookupParents_superset [OF Inr sub] by blast
      obtain v2 pc2 where v2: "newVersion repoID c ps2 pc = (v2, pc2)"
        by (cases "newVersion repoID c ps2 pc")
      have k: "key v2 = key v"
        using newVersion_key [of repoID c ps2 pc] newVersion_key [of repoID c ps "paths s"] v v2
        by simp
      have "key v2 \<in> set (map key store1)"
        using CreateIfNotExists_keys(1) [OF store1] k by simp
      moreover have "\<not> down (ExternalID v2)"
        using CreateIfNotExists_keys(3) [OF store1] k by (simp add: key_def)
      ultimately have "CreateIfNotExists down store1 v2 = Inr store1"
        by (rule CreateIfNotExists_present [rotated])
      then show ?thesis
        using pop ps2 v2 pr d by (simp add: iteration_def)
    qed
  qed
qed

lemma loop_again:
  assumes "loop down repoID gitRepo children s = Some y"
  shows "set (map key (db s)) \<subseteq> set (map key (fst y)) \<and>
         (noDuplicates (db s) \<longrightarrow> noDuplicates (fst y)) \<and>
         (\<forall>pc. loop down repoID gitRepo children (s\<lparr>db := fst y, paths := pc\<rparr>) = Some y)"
proof (rule loop.raw_induct [where P = "\<lambda>down repoID gitRepo children s y.
         set (map key (db s)) \<subseteq> set (map key (fst y)) \<and>
         (noDuplicates (db s) \<longrightarrow> noDuplicates (fst y)) \<and>
         (\<forall>pc. loop down repoID gitRepo children (s\<lparr>db := fst y, paths := pc\<rparr>) = Some y)",
       OF _ assms])
  fix loop' :: "(string \<Rightarrow> bool) \<Rightarrow> int \<Rightarrow> Commit list \<Rightarrow> (Hash \<Rightarrow> Hash list) \<Rightarrow> state
                  \<Rightarrow> (Store \<times> error option) option"
    and down repoID gitRepo children s y
  assume IH: "\<And>down repoID gitRepo children s y. loop' down repoID gitRepo children s = Some y \<Longrightarrow>
         set (map key (db s)) \<subseteq> set (map key (fst y)) \<and>
         (noDuplicates (db s) \<longrightarrow> noDuplicates (fst y)) \<and>
         (\<forall>pc. loop down repoID gitRepo children (s\<lparr>db := fst y, paths := pc\<rparr>) = Some y)"
    and body: "(if notEmpty (toBeProcessed s) then
        (case iteration down repoID gitRepo children s of
           Inl (d, e) \<Rightarrow> Some (d, Some e)
         | Inr s' \<Rightarrow> loop' down repoID gitRepo children s')
      else Some (db s, None)) = Some y"
  show "set (map key (db s)) \<subseteq> set (map key (fst y)) \<and>
         (noDuplicates (db s) \<longrightarrow> noDuplicates (fst y)) \<and>
         (\<forall>pc. loop down repoID gitRepo children (s\<lparr>db := fst y, paths := pc\<rparr>) = Some y)"
  proof (cases "notEmpty (toBeProcessed s)")
    case False
    then have y: "y = (db s, None)" using body by simp
    have "loop down repoID gitRepo children (s\<lparr>db := db s, paths := pc\<rparr>) = Some (db s, None)" for pc
      using False by (subst loop.simps) simp
    then show ?thesis using y by simp
  next
    case True
    show ?thesis
    proof (cases "iteration down repoID gitRepo children s")
      case (Inl de)
      obtain d e where de: "de = (d, e)" by (cases de)
      then have y: "y = (d, Some e)" using body True Inl by simp
      have "loop down repoID gitRepo children (s\<lparr>db := d, paths := pc\<rparr>) = Some (d, Some e)" for pc
        using True iteration_again_error [OF Inl [unfolded de], of pc]
        by (subst loop.simps) simp
      then show ?thesis
        using iteration_Inl_keys [OF Inl [unfolded de]] y by simp
    next
      case (Inr s')
      then have l: "loop' down repoID gitRepo children s' = Some y"
        using body True by simp
      note ih = IH [OF l]
      have keys: "set (map key (db s)) \<subseteq> set (map key (fst y))"
        using iteration_Inr_keys(1) [OF Inr] ih by blast
      have nodup: "noDuplicates (db s) \<longrightarrow> noDuplicates (fst y)"
        using iteration_Inr_keys(2) [OF Inr] ih by blast
      have again: "loop down repoID gitRepo children (s\<lparr>db := fst y, paths := pc\<rparr>) = Some y" for pc
      proof -
        obtain pc' where
          "iteration down repoID gitRepo children (s\<lparr>db := fst y, paths := pc\<rparr>) =
             Inr (s'\<lparr>db := fst y, paths := pc'\<rparr>)"
          using iteration_again [OF Inr, of "fst y" pc] ih by blast
        moreover have "loop down repoID gitRepo children (s'\<lparr>db := fst y, paths := pc'\<rparr>) = Some y"
          using ih by blast
        ultimately show ?thesis
          using True by (subst loop.simps) simp
      qed
      show ?thesis
        using keys nodup again by blast
    qed
  qed
qed

text \<open>
  Claim C9. From a store that has no two versions with the same (repositoryID, externalID),
  \<open>Clone\<close> returns, with or without an error, and the store it leaves has no duplicates; a
  second \<open>Clone\<close> of the same source on that store returns the same result and leaves the
  store, version by version, as the first run left it.
\<close>

theorem ingestion_idempotent:
  assumes "noDuplicates db0"
  shows "\<exists>db1 e. Clone down db0 repoID source = Some (db1, e) \<and> noDuplicates db1 \<and>
                  Clone down db1 repoID source = Some (db1, e)"
proof (cases source)
  case None
  then show ?thesis using assms by (simp add: Clone_def)
next
  case (Some gitLog)
  obtain children roots where g: "buildGraph gitLog = (children, roots)"
    by (cases "buildGraph gitLog")
  show ?thesis
  proof (cases "length roots = 0")
    case True
    then show ?thesis using assms Some g by (simp add: Clone_def)
  next
    case False
    show ?thesis
    proof (cases "seed gitLog roots \<lparr>stack = []\<rparr>")
      case (Inl e)
      then show ?thesis using assms Some g False by (simp add: Clone_def)
    next
      case (Inr b)
      obtain db1 e where l: "loop down repoID gitLog children (startState db0 b) = Some (db1, e)"
        using loop_ends [of down repoID gitLog children "startState db0 b"] by auto
      note again = loop_again [OF l]
      have "startState db1 b = (startState db0 b)\<lparr>db := db1, paths := initPaths\<rparr>"
        by (simp add: startState_def)
      then have "loop down repoID gitLog children (startState db1 b) = Some (db1, e)"
        using again by simp
      moreover have "noDuplicates db1"
        using again assms by (simp add: startState_def)
      ultimately show ?thesis
        using Some g False Inr l by (simp add: Clone_def)
    qed
  qed
qed

section \<open>Running Clone after an interruption\<close>

text \<open>
  A run only adds versions at the end of the store, one per commit at most. A later run on a
  store that holds more of them finds the same parents and leaves the versions it finds.
\<close>

lemma find_append_found: "find P xs = Some p \<Longrightarrow> find P (xs @ ys) = Some p"
  by (induction xs) auto

lemma lookupParents_append:
  "lookupParents down store repoID hs acc = Inr ps \<Longrightarrow>
   lookupParents down (store @ rest) repoID hs acc = Inr ps"
proof (induction hs arbitrary: acc)
  case Nil
  then show ?case by simp
next
  case (Cons h hs)
  from Cons.prems obtain p where
    p: "Lookup down store repoID (EncodeToString h) = Inr (Some p)"
    and rest: "lookupParents down store repoID hs (acc @ [p]) = Inr ps"
    by (auto split: sum.splits option.splits)
  from p have "Lookup down (store @ rest) repoID (EncodeToString h) = Inr (Some p)"
    by (auto simp: Lookup_def find_append_found split: if_splits)
  then show ?case
    using Cons.IH [OF rest] by simp
qed

lemma CreateIfNotExists_store:
  "CreateIfNotExists down store v = Inr store' \<Longrightarrow> store' = store \<or> store' = store @ [v]"
  by (auto simp: CreateIfNotExists_def split: if_splits)

lemma iteration_store:
  assumes "iteration down repoID gitRepo children s = Inr s'"
  shows "db s' = db s \<or> (\<exists>v. db s' = db s @ [v])"
  using assms
  by (auto simp: iteration_def Let_def dest: CreateIfNotExists_store
           split: option.splits sum.splits prod.splits)

lemma iteration_error_store:
  assumes "iteration down repoID gitRepo children s = Inl (d, e)"
  shows "d = db s \<or> (\<exists>v. d = db s @ [v])"
  using assms
  by (auto simp: iteration_def Let_def dest: CreateIfNotExists_store
           split: option.splits sum.splits prod.splits)

lemma iteration_resume:
  assumes it: "iteration down repoID gitRepo children s = Inr s'"
  shows "iteration down repoID gitRepo children (s\<lparr>db := db s' @ rest\<rparr>) =
           Inr (s'\<lparr>db := db s' @ rest\<rparr>)"
proof -
  from it obtain c b where pop: "pop (toBeProcessed s) = Some (c, b)"
    by (auto simp: iteration_def split: option.splits)
  from it pop obtain ps where ps: "lookupParents down (db s) repoID (ParentHashes c) [] = Inr ps"
    by (auto simp: iteration_def split: sum.splits)
  obtain v pc1 where v: "newVersion repoID c ps (paths s) = (v, pc1)"
    by (cases "newVersion repoID c ps (paths s)")
  from it pop ps v obtain store1 where
    cr: "CreateIfNotExists down (db s) v = Inr store1"
    by (auto simp: iteration_def split: sum.splits)
  from it pop ps v cr obtain b' where
    pr: "pushReady gitRepo (insert (Hash c) (processed s)) (children (Hash c)) b = Inr b'"
    and s': "s' = \<lparr>db = store1, paths = pc1, toBeProcessed = b',
                   processed = insert (Hash c) (processed s)\<rparr>"
    by (auto simp: iteration_def Let_def split: sum.splits)
  from CreateIfNotExists_store [OF cr] obtain mid where mid: "store1 = db s @ mid"
    by auto
  have ps2: "lookupParents down (db s' @ rest) repoID (ParentHashes c) [] = Inr ps"
    using lookupParents_append [OF ps, of "mid @ rest"] s' mid by simp
  have "key v \<in> set (map key store1)"
    using CreateIfNotExists_keys(1) [OF cr] by simp
  then have "key v \<in> set (map key (db s' @ rest))"
    using s' by simp
  moreover have "\<not> down (ExternalID v)"
    by (rule CreateIfNotExists_keys(3) [OF cr])
  ultimately have cr2: "CreateIfNotExists down (db s' @ rest) v = Inr (db s' @ rest)"
    by (rule CreateIfNotExists_present [rotated])
  show ?thesis
    using pop ps2 v cr2 pr s' by (simp add: iteration_def)
qed

lemma loop_resume:
  assumes "loop down repoID gitRepo children s = Some y"
  shows "prefix (db s) (fst y) \<and>
         (\<forall>store. prefix (db s) store \<and> prefix store (fst y) \<longrightarrow>
            loop down repoID gitRepo children (s\<lparr>db := store\<rparr>) = Some y)"
proof (rule loop.raw_induct [where P = "\<lambda>down repoID gitRepo children s y.
         prefix (db s) (fst y) \<and>
         (\<forall>store. prefix (db s) store \<and> prefix store (fst y) \<longrightarrow>
            loop down repoID gitRepo children (s\<lparr>db := store\<rparr>) = Some y)",
       OF _ assms])
  fix loop' :: "(string \<Rightarrow> bool) \<Rightarrow> int \<Rightarrow> Commit list \<Rightarrow> (Hash \<Rightarrow> Hash list) \<Rightarrow> state
                  \<Rightarrow> (Store \<times> error option) option"
    and down repoID gitRepo children s y
  assume IH: "\<And>down repoID gitRepo children s y. loop' down repoID gitRepo children s = Some y \<Longrightarrow>
         prefix (db s) (fst y) \<and>
         (\<forall>store. prefix (db s) store \<and> prefix store (fst y) \<longrightarrow>
            loop down repoID gitRepo children (s\<lparr>db := store\<rparr>) = Some y)"
    and body: "(if notEmpty (toBeProcessed s) then
        (case iteration down repoID gitRepo children s of
           Inl (d, e) \<Rightarrow> Some (d, Some e)
         | Inr s' \<Rightarrow> loop' down repoID gitRepo children s')
      else Some (db s, None)) = Some y"
  show "prefix (db s) (fst y) \<and>
         (\<forall>store. prefix (db s) store \<and> prefix store (fst y) \<longrightarrow>
            loop down repoID gitRepo children (s\<lparr>db := store\<rparr>) = Some y)"
  proof (cases "notEmpty (toBeProcessed s)")
    case False
    then have y: "y = (db s, None)" using body by simp
    have same: "loop down repoID gitRepo children s = Some (db s, None)"
      using False by (subst loop.simps) simp
    have "loop down repoID gitRepo children (s\<lparr>db := store\<rparr>) = Some (db s, None)"
      if "prefix (db s) store" "prefix store (db s)" for store
    proof -
      have "store = db s"
        using that by (simp add: prefix_order.antisym)
      then show ?thesis using same by simp
    qed
    then show ?thesis using y by simp
  next
    case True
    show ?thesis
    proof (cases "iteration down repoID gitRepo children s")
      case (Inl de)
      obtain d e where de: "de = (d, e)" by (cases de)
      then have y: "y = (d, Some e)" using body True Inl by simp
      note it = Inl [unfolded de]
      have same: "loop down repoID gitRepo children s = Some (d, Some e)"
        using True it by (subst loop.simps) simp
      have atd: "loop down repoID gitRepo children (s\<lparr>db := d\<rparr>) = Some (d, Some e)"
        using True iteration_again_error [OF it, of "paths s"]
        by (subst loop.simps) simp
      have d: "d = db s \<or> (\<exists>v. d = db s @ [v])"
        by (rule iteration_error_store [OF it])
      have "store = db s \<or> store = d" if "prefix (db s) store" "prefix store d" for store
        using that d by (auto simp: prefix_order.antisym)
      then have "loop down repoID gitRepo children (s\<lparr>db := store\<rparr>) = Some (d, Some e)"
        if "prefix (db s) store" "prefix store d" for store
        using that same atd by (metis state.surjective state.update_convs(1))
      moreover have "prefix (db s) d"
        using d by auto
      ultimately show ?thesis
        using y by simp
    next
      case (Inr s')
      then have l: "loop' down repoID gitRepo children s' = Some y"
        using body True by simp
      note ih = IH [OF l]
      have st: "db s' = db s \<or> (\<exists>v. db s' = db s @ [v])"
        by (rule iteration_store [OF Inr])
      then have p0: "prefix (db s) (db s')"
        by auto
      have p1: "prefix (db s) (fst y)"
        using p0 ih by (meson prefix_order.trans)
      have s'y: "loop down repoID gitRepo children s' = Some y"
        using ih by (metis prefix_order.refl state.surjective state.update_convs(1))
      have sy: "loop down repoID gitRepo children s = Some y"
        using True Inr s'y by (subst loop.simps) simp
      have "loop down repoID gitRepo children (s\<lparr>db := store\<rparr>) = Some y"
        if a: "prefix (db s) store" and b: "prefix store (fst y)" for store
      proof (cases "prefix (db s') store")
        case True
        then obtain rest where rest: "store = db s' @ rest"
          by (auto simp: prefix_def)
        have "iteration down repoID gitRepo children (s\<lparr>db := store\<rparr>) = Inr (s'\<lparr>db := store\<rparr>)"
          unfolding rest by (rule iteration_resume [OF Inr])
        moreover have "loop down repoID gitRepo children (s'\<lparr>db := store\<rparr>) = Some y"
          using ih True b by blast
        ultimately show ?thesis
          using \<open>notEmpty (toBeProcessed s)\<close> by (subst loop.simps) simp
      next
        case False
        have "prefix (db s') (fst y)" using ih by blast
        with b have "prefix store (db s')"
          using False prefix_same_cases by blast
        with a st False have "store = db s"
          by (auto simp: prefix_order.antisym)
        then show ?thesis
          using sy by simp
      qed
      then show ?thesis
        using p1 by blast
    qed
  qed
qed

text \<open>
  A run that a failing round trip stops leaves the store of an uninterrupted run cut after
  some of the versions that the uninterrupted run adds.
\<close>

lemma lookupParents_down:
  assumes "lookupParents down store repoID hs acc = Inr ps"
    and "lookupParents down' store repoID hs acc = Inr ps'"
  shows "ps' = ps"
  using assms
  by (induction hs arbitrary: acc)
     (auto simp: Lookup_def split: sum.splits option.splits if_splits)

lemma CreateIfNotExists_down:
  assumes "CreateIfNotExists down store v = Inr store1"
    and "CreateIfNotExists down' store v = Inr store2"
  shows "store2 = store1"
  using assms by (auto simp: CreateIfNotExists_def split: if_splits)

lemma iteration_down:
  assumes it: "iteration down repoID gitRepo children s = Inr s'"
  shows "(iteration down' repoID gitRepo children s = Inr s2 \<longrightarrow> s2 = s') \<and>
         (iteration down' repoID gitRepo children s = Inl (d, e) \<longrightarrow> d = db s)"
proof -
  from it obtain c b where pop: "pop (toBeProcessed s) = Some (c, b)"
    by (auto simp: iteration_def split: option.splits)
  from it pop obtain ps where ps: "lookupParents down (db s) repoID (ParentHashes c) [] = Inr ps"
    by (auto simp: iteration_def split: sum.splits)
  obtain v pc1 where v: "newVersion repoID c ps (paths s) = (v, pc1)"
    by (cases "newVersion repoID c ps (paths s)")
  from it pop ps v obtain store1 where
    cr: "CreateIfNotExists down (db s) v = Inr store1"
    by (auto simp: iteration_def split: sum.splits)
  from it pop ps v cr obtain b' where
    pr: "pushReady gitRepo (insert (Hash c) (processed s)) (children (Hash c)) b = Inr b'"
    and s': "s' = \<lparr>db = store1, paths = pc1, toBeProcessed = b',
                   processed = insert (Hash c) (processed s)\<rparr>"
    by (auto simp: iteration_def Let_def split: sum.splits)
  show ?thesis
  proof (cases "lookupParents down' (db s) repoID (ParentHashes c) []")
    case (Inl e')
    then show ?thesis using pop by (simp add: iteration_def)
  next
    case (Inr ps')
    then have ps': "lookupParents down' (db s) repoID (ParentHashes c) [] = Inr ps"
      using lookupParents_down [OF ps] by simp
    show ?thesis
    proof (cases "CreateIfNotExists down' (db s) v")
      case (Inl e')
      then show ?thesis using pop ps' v by (simp add: iteration_def)
    next
      case (Inr store2)
      then have "CreateIfNotExists down' (db s) v = Inr store1"
        using CreateIfNotExists_down [OF cr] by simp
      then show ?thesis
        using pop ps' v pr s' by (simp add: iteration_def)
    qed
  qed
qed

lemma loop_interrupted:
  assumes "loop down repoID gitRepo children s = Some y"
  shows "snd y = None \<longrightarrow>
         (\<forall>db1 e. loop down' repoID gitRepo children s = Some (db1, e) \<longrightarrow>
            prefix (db s) db1 \<and> prefix db1 (fst y))"
proof (rule loop.raw_induct [where P = "\<lambda>down repoID gitRepo children s y.
         snd y = None \<longrightarrow>
         (\<forall>db1 e. loop down' repoID gitRepo children s = Some (db1, e) \<longrightarrow>
            prefix (db s) db1 \<and> prefix db1 (fst y))",
       OF _ assms])
  fix loop' :: "(string \<Rightarrow> bool) \<Rightarrow> int \<Rightarrow> Commit list \<Rightarrow> (Hash \<Rightarrow> Hash list) \<Rightarrow> state
                  \<Rightarrow> (Store \<times> error option) option"
    and down repoID gitRepo children s y
  assume IH: "\<And>down repoID gitRepo children s y. loop' down repoID gitRepo children s = Some y \<Longrightarrow>
         snd y = None \<longrightarrow>
         (\<forall>db1 e. loop down' repoID gitRepo children s = Some (db1, e) \<longrightarrow>
            prefix (db s) db1 \<and> prefix db1 (fst y))"
    and body: "(if notEmpty (toBeProcessed s) then
        (case iteration down repoID gitRepo children s of
           Inl (d, e) \<Rightarrow> Some (d, Some e)
         | Inr s' \<Rightarrow> loop' down repoID gitRepo children s')
      else Some (db s, None)) = Some y"
  show "snd y = None \<longrightarrow>
         (\<forall>db1 e. loop down' repoID gitRepo children s = Some (db1, e) \<longrightarrow>
            prefix (db s) db1 \<and> prefix db1 (fst y))"
  proof (intro impI allI)
    fix db1 e
    assume none: "snd y = None"
      and other: "loop down' repoID gitRepo children s = Some (db1, e)"
    show "prefix (db s) db1 \<and> prefix db1 (fst y)"
    proof (cases "notEmpty (toBeProcessed s)")
      case False
      then have "y = (db s, None)" using body by simp
      moreover have "db1 = db s"
        using other False by (subst (asm) loop.simps) simp
      ultimately show ?thesis by simp
    next
      case True
      from none body True obtain s' where
        it: "iteration down repoID gitRepo children s = Inr s'"
        and l: "loop' down repoID gitRepo children s' = Some y"
        by (auto split: sum.splits)
      note ih = IH [OF l, rule_format, OF none]
      have p0: "prefix (db s) (db s')"
        using iteration_store [OF it] by auto
      obtain db3 e3 where "loop down' repoID gitRepo children s' = Some (db3, e3)"
        using loop_ends [of down' repoID gitRepo children s'] by auto
      from ih [OF this] have p1: "prefix (db s') (fst y)"
        by (meson prefix_order.trans)
      show ?thesis
      proof (cases "iteration down' repoID gitRepo children s")
        case (Inl de)
        obtain d e' where de: "de = (d, e')" by (cases de)
        have "d = db s"
          using iteration_down [OF it, of down' s' d e'] Inl de by simp
        moreover have "db1 = d"
          using other True Inl de by (subst (asm) loop.simps) simp
        ultimately show ?thesis
          using p0 p1 by (auto intro: prefix_order.trans)
      next
        case (Inr s2)
        then have "s2 = s'"
          using iteration_down [OF it, of down' s2] by simp
        then have "loop down' repoID gitRepo children s' = Some (db1, e)"
          using other True Inr by (subst (asm) loop.simps) simp
        from ih [OF this] show ?thesis
          using p0 by (auto intro: prefix_order.trans)
      qed
    qed
  qed
qed

lemma Clone_interrupted:
  assumes "Clone down db0 repoID source = Some (db2, None)"
    and "Clone down' db0 repoID source = Some (db1, e)"
  shows "\<exists>persisted remaining. db1 = db0 @ persisted \<and> db2 = db0 @ persisted @ remaining"
proof -
  from assms(1) obtain gitLog where src: "source = Some gitLog"
    by (cases source) (simp_all add: Clone_def)
  obtain children roots where g: "buildGraph gitLog = (children, roots)"
    by (cases "buildGraph gitLog")
  from assms(1) src g have r: "length roots \<noteq> 0"
    by (auto simp: Clone_def)
  from assms(1) src g r obtain b where b: "seed gitLog roots \<lparr>stack = []\<rparr> = Inr b"
    by (cases "seed gitLog roots \<lparr>stack = []\<rparr>") (simp_all add: Clone_def)
  have l2: "loop down repoID gitLog children (startState db0 b) = Some (db2, None)"
    using assms(1) src g r b by (simp add: Clone_def)
  have l1: "loop down' repoID gitLog children (startState db0 b) = Some (db1, e)"
    using assms(2) src g r b by (simp add: Clone_def)
  from loop_interrupted [OF l2, of down'] l1
  have "prefix db0 db1" "prefix db1 db2"
    by (simp_all add: startState_def)
  then show ?thesis
    by (auto simp: prefix_def)
qed

text \<open>
  Claim C4, as amended. Let an uninterrupted \<open>Clone\<close> from the store \<open>db0\<close> add the
  versions \<open>persisted @ remaining\<close>, and let the ingestion be interrupted when the versions
  \<open>persisted\<close> are in the store. \<open>Clone\<close>, run again on the store so left, ends with the
  store and the result of the uninterrupted run: the remaining commits get the same
  coordinates and reachability maps. This holds for every repository and every such prefix.
  The second run does not reconstruct the allocator from the store: it starts from the empty
  allocator and from the roots, computes the persisted commits again with the same result,
  and \<open>CreateIfNotExists\<close> leaves their stored versions as they are.
\<close>

theorem resume_correctness:
  assumes "Clone down db0 repoID source = Some (db0 @ persisted @ remaining, e)"
  shows "Clone down (db0 @ persisted) repoID source = Some (db0 @ persisted @ remaining, e)"
proof (cases source)
  case None
  then show ?thesis using assms by (simp add: Clone_def)
next
  case (Some gitLog)
  obtain children roots where g: "buildGraph gitLog = (children, roots)"
    by (cases "buildGraph gitLog")
  show ?thesis
  proof (cases "length roots = 0")
    case True
    then show ?thesis using assms Some g by (simp add: Clone_def)
  next
    case False
    show ?thesis
    proof (cases "seed gitLog roots \<lparr>stack = []\<rparr>")
      case (Inl e)
      then show ?thesis using assms Some g False by (simp add: Clone_def)
    next
      case (Inr b)
      have l: "loop down repoID gitLog children (startState db0 b) =
                 Some (db0 @ persisted @ remaining, e)"
        using assms Some g False Inr by (simp add: Clone_def)
      have "startState (db0 @ persisted) b = (startState db0 b)\<lparr>db := db0 @ persisted\<rparr>"
        by (simp add: startState_def)
      moreover have "prefix (db (startState db0 b)) (db0 @ persisted)"
        "prefix (db0 @ persisted) (fst (db0 @ persisted @ remaining, e))"
        by (simp_all add: startState_def)
      ultimately have "loop down repoID gitLog children (startState (db0 @ persisted) b) =
                 Some (db0 @ persisted @ remaining, e)"
        using loop_resume [OF l] by simp
      then show ?thesis
        using Some g False Inr by (simp add: Clone_def)
    qed
  qed
qed


section \<open>The hexadecimal encoding is injective\<close>

lemma hextable_nth_inj:
  assumes "i < 16" "j < 16" "hextable ! i = hextable ! j"
  shows "i = j"
proof -
  have "distinct hextable" by (simp add: hextable_def)
  moreover have "length hextable = 16" by (simp add: hextable_def)
  ultimately show ?thesis
    using assms by (simp add: nth_eq_iff_index_eq)
qed

lemma low_nibble: "(b :: 8 word) AND 15 = take_bit 4 b"
proof -
  have "(15 :: 8 word) = mask 4"
    by (simp add: mask_eq_exp_minus_1)
  then show ?thesis
    by (simp only: take_bit_eq_mask)
qed

lemma hi_lt: "unat (drop_bit 4 (b :: 8 word)) < 16"
proof -
  have "unat (drop_bit 4 b) = unat b div 2 ^ 4"
    by (metis unat_drop_bit_eq drop_bit_eq_div)
  moreover have "unat b < 2 ^ 8"
    using unsigned_less [of b] by simp
  ultimately show ?thesis by simp
qed

lemma lo_lt: "unat ((b :: 8 word) AND 15) < 16"
proof -
  have "unat (take_bit 4 b) < 2 ^ 4"
    by (simp only: unsigned_take_bit_eq take_bit_nat_less_exp)
  then show ?thesis
    by (simp only: low_nibble) simp
qed

lemma nibbles_eq:
  fixes x y :: "8 word"
  assumes "drop_bit 4 x = drop_bit 4 y" and "x AND 15 = y AND 15"
  shows "x = y"
proof -
  have "x = push_bit 4 (drop_bit 4 x) + take_bit 4 x"
    by (simp only: bits_ident)
  also have "\<dots> = push_bit 4 (drop_bit 4 y) + take_bit 4 y"
    using assms by (simp only: low_nibble)
  also have "\<dots> = y"
    by (simp only: bits_ident)
  finally show ?thesis .
qed

lemma EncodeToString_inj: "EncodeToString xs = EncodeToString ys \<Longrightarrow> xs = ys"
proof (induction xs arbitrary: ys)
  case Nil
  then show ?case by (cases ys) simp_all
next
  case (Cons x xs)
  then obtain y ys' where ys: "ys = y # ys'" by (cases ys) simp_all
  from Cons.prems ys have
    "hextable ! unat (drop_bit 4 x) = hextable ! unat (drop_bit 4 y)"
    "hextable ! unat (x AND 15) = hextable ! unat (y AND 15)"
    "EncodeToString xs = EncodeToString ys'"
    by simp_all
  then have "unat (drop_bit 4 x) = unat (drop_bit 4 y)" "unat (x AND 15) = unat (y AND 15)"
    "xs = ys'"
    using hextable_nth_inj hi_lt lo_lt Cons.IH by blast+
  then have "drop_bit 4 x = drop_bit 4 y" "x AND 15 = y AND 15" "xs = ys'"
    by (simp_all only: word_unat_eq_iff)
  then show ?case using ys nibbles_eq by simp
qed

section \<open>Linear histories\<close>

lemma length_linearHistory: "length (linearHistory hs) = length hs"
  by (simp add: linearHistory_def)

lemma set_linearHistory: "set (linearHistory hs) = chainCommit hs ` {..<length hs}"
  by (auto simp: linearHistory_def)

lemma Hash_chainCommit: "Hash (chainCommit hs j) = hs ! j"
  by (simp add: chainCommit_def)

lemma chain_log_set:
  assumes "mset gitLog = mset (linearHistory hs)"
  shows "set gitLog = chainCommit hs ` {..<length hs}"
  using assms set_linearHistory [of hs] by (metis set_mset_mset)

lemma distinct_linearHistory:
  assumes "distinct hs"
  shows "distinct (linearHistory hs)"
proof -
  have "map Hash (linearHistory hs) = hs"
    by (simp add: linearHistory_def comp_def Hash_chainCommit map_nth)
  then show ?thesis
    using assms by (metis distinct_map)
qed

lemma chain_log_distinct:
  assumes "distinct hs" "mset gitLog = mset (linearHistory hs)"
  shows "distinct gitLog"
  using assms distinct_linearHistory by (metis mset_eq_imp_distinct_iff)

lemma distinct_singleton:
  assumes "distinct xs" "set xs = {x}"
  shows "xs = [x]"
proof (cases xs)
  case Nil
  with assms show ?thesis by simp
next
  case (Cons y ys)
  with assms have "y = x" "set ys \<subseteq> {x}" "y \<notin> set ys" by auto
  then have "ys = []" by (cases ys) auto
  with Cons \<open>y = x\<close> show ?thesis by simp
qed

lemma distinct_empty: "set xs = {} \<Longrightarrow> xs = []"
  by simp

text \<open>The children relation and the roots of a log in which no commit has two parents.\<close>

lemma fst_visit_single:
  assumes "length (ParentHashes c) \<le> 1"
  shows "fst (visit c g) h = fst g h @ (if ParentHashes c = [h] then [Hash c] else [])"
proof (cases "ParentHashes c")
  case Nil
  then show ?thesis by (cases g) (simp add: visit_def)
next
  case (Cons p ps)
  with assms have "ParentHashes c = [p]" by simp
  then show ?thesis by (cases g) (auto simp: visit_def)
qed

lemma fst_fold_visit_single:
  assumes "\<forall>c\<in>set gitLog. length (ParentHashes c) \<le> 1"
  shows "fst (fold visit gitLog g) h =
           fst g h @ map Hash (filter (\<lambda>c. ParentHashes c = [h]) gitLog)"
  using assms
proof (induction gitLog arbitrary: g)
  case Nil
  then show ?case by simp
next
  case (Cons c cs)
  then show ?case by (simp add: fst_visit_single)
qed

lemma children_buildGraph_single:
  assumes "\<forall>c\<in>set gitLog. length (ParentHashes c) \<le> 1"
  shows "fst (buildGraph gitLog) h = map Hash (filter (\<lambda>c. ParentHashes c = [h]) gitLog)"
  using fst_fold_visit_single [OF assms] by (simp add: buildGraph_def)

lemma chainCommit_root:
  assumes "distinct hs" "j < length hs"
  shows "ParentHashes (chainCommit hs j) = [] \<longleftrightarrow> j = 0"
  by (simp add: chainCommit_def)

lemma chainCommit_parent:
  assumes "distinct hs" "j < length hs" "i < length hs"
  shows "ParentHashes (chainCommit hs i) = [hs ! j] \<longleftrightarrow> i = Suc j"
proof
  assume p: "ParentHashes (chainCommit hs i) = [hs ! j]"
  then have "i \<noteq> 0" by (auto simp: chainCommit_def split: if_splits)
  with p have "hs ! (i - 1) = hs ! j" by (simp add: chainCommit_def)
  then have "i - 1 = j"
    using assms by (simp add: nth_eq_iff_index_eq)
  with \<open>i \<noteq> 0\<close> show "i = Suc j" by simp
next
  assume "i = Suc j"
  then show "ParentHashes (chainCommit hs i) = [hs ! j]"
    by (simp add: chainCommit_def)
qed

lemma chain_roots:
  assumes "distinct hs" "hs \<noteq> []" "mset gitLog = mset (linearHistory hs)"
  shows "snd (buildGraph gitLog) = [hs ! 0]"
proof -
  let ?F = "filter (\<lambda>c. ParentHashes c = []) gitLog"
  have "distinct ?F"
    using chain_log_distinct [OF assms(1,3)] by simp
  moreover have "set ?F = {chainCommit hs 0}"
    using assms(1,2) chain_log_set [OF assms(3)]
    by (auto simp: chainCommit_root)
  ultimately have "?F = [chainCommit hs 0]"
    by (rule distinct_singleton)
  then show ?thesis
    by (simp add: roots_buildGraph Hash_chainCommit)
qed

lemma chain_children:
  assumes "distinct hs" "mset gitLog = mset (linearHistory hs)" "j < length hs"
  shows "fst (buildGraph gitLog) (hs ! j) = (if Suc j < length hs then [hs ! Suc j] else [])"
proof -
  let ?F = "filter (\<lambda>c. ParentHashes c = [hs ! j]) gitLog"
  have single: "\<forall>c\<in>set gitLog. length (ParentHashes c) \<le> 1"
    using chain_log_set [OF assms(2)] by (auto simp: chainCommit_def)
  have d: "distinct ?F"
    using chain_log_distinct [OF assms(1,2)] by simp
  have s: "set ?F = (if Suc j < length hs then {chainCommit hs (Suc j)} else {})"
    using chain_log_set [OF assms(2)] assms(1,3)
    by (auto simp: chainCommit_parent)
  show ?thesis
  proof (cases "Suc j < length hs")
    case True
    with s d have "?F = [chainCommit hs (Suc j)]"
      by (simp add: distinct_singleton)
    then show ?thesis
      using True by (simp add: children_buildGraph_single [OF single] Hash_chainCommit)
  next
    case False
    with s have "?F = []" by simp
    then show ?thesis
      using False by (simp add: children_buildGraph_single [OF single])
  qed
qed

lemma chain_CommitObject:
  assumes "distinct hs" "mset gitLog = mset (linearHistory hs)" "j < length hs"
  shows "CommitObject gitLog (hs ! j) = Inr (chainCommit hs j)"
proof -
  have "chainCommit hs j \<in> set gitLog"
    using chain_log_set [OF assms(2)] assms(3) by simp
  then have "find (\<lambda>c. Hash c = hs ! j) gitLog \<noteq> None"
    by (auto simp: find_None_iff Hash_chainCommit)
  then obtain c where c: "find (\<lambda>c. Hash c = hs ! j) gitLog = Some c"
    by auto
  then have "c \<in> set gitLog" "Hash c = hs ! j"
    by (auto simp: find_Some_iff)
  then obtain i where i: "i < length hs" "c = chainCommit hs i"
    using chain_log_set [OF assms(2)] by auto
  with \<open>Hash c = hs ! j\<close> have "hs ! i = hs ! j"
    by (simp add: Hash_chainCommit)
  then have "i = j"
    using assms(1,3) i(1) by (simp add: nth_eq_iff_index_eq)
  then show ?thesis
    using c i by (simp add: CommitObject_def)
qed

lemma absent_Suc:
  "absent repoID hs db0 (Suc m) =
     absent repoID hs db0 m @
       (if list_ex (hasKey repoID (EncodeToString (hs ! m))) db0 then [] else [m])"
  by (simp add: absent_def)

lemma chainStore_0: "chainStore repoID hs db0 0 = db0"
  by (simp add: chainStore_def absent_def)

lemma chainStore_Suc:
  "chainStore repoID hs db0 (Suc m) =
     chainStore repoID hs db0 m @
       (if list_ex (hasKey repoID (EncodeToString (hs ! m))) db0 then []
        else [chainVersion repoID hs m])"
  by (simp add: chainStore_def absent_Suc)

lemma key_chainVersion: "key (chainVersion repoID hs i) = (repoID, EncodeToString (hs ! i))"
  by (simp add: key_def chainVersion_def)

lemma keys_chainStore:
  "set (map key (chainStore repoID hs db0 m)) =
     set (map key db0) \<union> (\<lambda>i. (repoID, EncodeToString (hs ! i))) ` {..<m}"
proof (induction m)
  case 0
  then show ?case by (simp add: chainStore_0)
next
  case (Suc m)
  show ?case
  proof (cases "list_ex (hasKey repoID (EncodeToString (hs ! m))) db0")
    case True
    then have "(repoID, EncodeToString (hs ! m)) \<in> set (map key db0)"
      by (simp only: list_ex_hasKey)
    then show ?thesis
      using Suc True by (auto simp: chainStore_Suc lessThan_Suc)
  next
    case False
    then show ?thesis
      using Suc by (auto simp: chainStore_Suc lessThan_Suc key_chainVersion)
  qed
qed

lemma chain_key_mem:
  assumes "distinct hs" "m \<le> length hs" "j < length hs"
  shows "(repoID, EncodeToString (hs ! j)) \<in> set (map key (chainStore repoID hs db0 m)) \<longleftrightarrow>
           j < m \<or> list_ex (hasKey repoID (EncodeToString (hs ! j))) db0"
proof
  assume "(repoID, EncodeToString (hs ! j)) \<in> set (map key (chainStore repoID hs db0 m))"
  then consider "(repoID, EncodeToString (hs ! j)) \<in> set (map key db0)"
    | i where "i < m" "EncodeToString (hs ! j) = EncodeToString (hs ! i)"
    unfolding keys_chainStore by auto
  then show "j < m \<or> list_ex (hasKey repoID (EncodeToString (hs ! j))) db0"
  proof cases
    case 1
    then show ?thesis by (simp only: list_ex_hasKey simp_thms)
  next
    case 2
    then have "hs ! j = hs ! i"
      by (simp add: EncodeToString_inj)
    then have "j = i"
      using assms 2(1) by (simp add: nth_eq_iff_index_eq)
    with 2 show ?thesis by simp
  qed
next
  assume "j < m \<or> list_ex (hasKey repoID (EncodeToString (hs ! j))) db0"
  then show "(repoID, EncodeToString (hs ! j)) \<in> set (map key (chainStore repoID hs db0 m))"
    unfolding keys_chainStore list_ex_hasKey by auto
qed

lemma agrees_row:
  assumes "agrees repoID hs db0" "v \<in> set db0" "i < length hs"
    and "hasKey repoID (EncodeToString (hs ! i)) v"
  shows "v = chainVersion repoID hs i"
  using assms by (auto simp: agrees_def list_all_iff)

lemma find_chainStore:
  assumes "distinct hs" "m \<le> length hs" "i < m" "agrees repoID hs db0"
  shows "find (hasKey repoID (EncodeToString (hs ! i))) (chainStore repoID hs db0 m) =
           Some (chainVersion repoID hs i)"
proof -
  have il: "i < length hs" using assms by simp
  have "find (hasKey repoID (EncodeToString (hs ! i))) (chainStore repoID hs db0 m) \<noteq> None"
    using chain_key_mem [OF assms(1,2) il, of repoID db0] assms(3)
    by (simp only: find_hasKey simp_thms)
  then obtain v where v: "find (hasKey repoID (EncodeToString (hs ! i))) (chainStore repoID hs db0 m) = Some v"
    by auto
  then have mem: "v \<in> set (chainStore repoID hs db0 m)"
    and hk: "hasKey repoID (EncodeToString (hs ! i)) v"
    by (auto simp: find_Some_iff)
  from mem consider "v \<in> set db0" | j where "j < m" "v = chainVersion repoID hs j"
    by (auto simp: chainStore_def absent_def)
  then have "v = chainVersion repoID hs i"
  proof cases
    case 1
    then show ?thesis by (rule agrees_row [OF assms(4) _ il hk])
  next
    case 2
    with hk have "EncodeToString (hs ! j) = EncodeToString (hs ! i)"
      by (simp add: hasKey_def chainVersion_def)
    then have "hs ! j = hs ! i"
      by (simp add: EncodeToString_inj)
    then have "j = i"
      using assms 2(1) by (simp add: nth_eq_iff_index_eq)
    with 2 show ?thesis by simp
  qed
  with v show ?thesis by simp
qed

lemma chain_lookupParents:
  assumes "distinct hs" "j < length hs" "agrees repoID hs db0"
    and "\<forall>h\<in>set hs. \<not> down (EncodeToString h)"
  shows "lookupParents down (chainStore repoID hs db0 j) repoID (ParentHashes (chainCommit hs j)) [] =
           Inr (if j = 0 then [] else [chainVersion repoID hs (j - 1)])"
proof (cases "j = 0")
  case True
  then show ?thesis by (simp add: chainCommit_def)
next
  case False
  then have "j - 1 < j" "j - 1 < length hs" "j \<le> length hs" using assms by simp_all
  then have "Lookup down (chainStore repoID hs db0 j) repoID (EncodeToString (hs ! (j - 1))) =
               Inr (Some (chainVersion repoID hs (j - 1)))"
    using assms(4) find_chainStore [OF assms(1) _ _ assms(3)] by (simp add: Lookup_def)
  then show ?thesis
    using False by (simp add: chainCommit_def)
qed

lemma chain_newVersion:
  assumes "int j < maxInt"
  shows "newVersion repoID (chainCommit hs j)
           (if j = 0 then [] else [chainVersion repoID hs (j - 1)]) (chainPaths j) =
         (chainVersion repoID hs j, chainPaths (Suc j))"
proof (cases "j = 0")
  case True
  have "wrapInt 1 = 1"
    by (simp add: wrapInt_def)
  then show ?thesis
    using True
    by (simp add: newVersion_def aggregateReachability_def TakeIndex_def chainPaths_def
        initPaths_def rd_Nil chainVersion_def chainCommit_def maxInt_def)
next
  case False
  then obtain i where i: "j = Suc i" by (cases j) simp_all
  have agg: "aggregateReachability [chainVersion repoID hs i] = [(1, int j)]"
    by (simp add: aggregateReachability_def chainVersion_def raise_def rd_Nil i)
  have w: "wrapInt (int j + 1) = int j + 1"
    using assms by (intro wrapInt_id) (simp_all add: minInt_def)
  have mx: "(1::int) < maxInt" by (simp add: maxInt_def)
  have take: "TakeIndex (chainPaths j) [(1, int j)] =
      (\<lparr>PathColor = 1, PathIndex = int j + 1\<rparr>, chainPaths (Suc j))"
    using False mx by (simp add: TakeIndex_def chainPaths_def usable_def rd_def w Let_def)
  have "newVersion repoID (chainCommit hs j) [chainVersion repoID hs i] (chainPaths j) =
          (\<lparr>RepoID = repoID, ExternalID = EncodeToString (Hash (chainCommit hs j)),
            PathCoverage = \<lparr>PathColor = 1, PathIndex = int j + 1\<rparr>,
            Reachability = AList.update 1 (int j + 1) [(1, int j)]\<rparr>, chainPaths (Suc j))"
    by (simp add: newVersion_def agg take)
  then show ?thesis
    using i by (simp add: chainVersion_def chainCommit_def)
qed

lemma chain_Create:
  assumes "distinct hs" "j < length hs"
    and "\<forall>h\<in>set hs. \<not> down (EncodeToString h)"
  shows "CreateIfNotExists down (chainStore repoID hs db0 j) (chainVersion repoID hs j) =
           Inr (chainStore repoID hs db0 (Suc j))"
proof -
  have m: "j \<le> length hs" using assms by simp
  have up: "\<not> down (ExternalID (chainVersion repoID hs j))"
    using assms(2,3) by (simp add: chainVersion_def)
  have ex: "list_ex (hasKey (RepoID (chainVersion repoID hs j)) (ExternalID (chainVersion repoID hs j)))
              (chainStore repoID hs db0 j) \<longleftrightarrow>
            list_ex (hasKey repoID (EncodeToString (hs ! j))) db0"
    using chain_key_mem [OF assms(1) m assms(2), of repoID db0]
    by (simp add: list_ex_hasKey chainVersion_def)
  show ?thesis
    using up ex by (simp add: CreateIfNotExists_def chainStore_Suc)
qed

lemma chain_pushReady:
  assumes "distinct hs" "mset gitLog = mset (linearHistory hs)" "j < length hs"
  shows "pushReady gitLog (insert (hs ! j) (set (take j hs)))
           (fst (buildGraph gitLog) (hs ! j)) \<lparr>stack = []\<rparr> =
         Inr \<lparr>stack = (if Suc j < length hs then [chainCommit hs (Suc j)] else [])\<rparr>"
proof (cases "Suc j < length hs")
  case False
  then show ?thesis
    by (simp add: chain_children [OF assms])
next
  case True
  have "hs ! Suc j \<notin> set (take (Suc j) hs)"
    using assms(1) True
    by (metis distinct_take id_take_nth_drop not_distinct_conv_prefix take_Suc_conv_app_nth)
  then have notin: "hs ! Suc j \<notin> insert (hs ! j) (set (take j hs))"
    using assms(3) by (simp add: take_Suc_conv_app_nth)
  show ?thesis
    using True notin chain_CommitObject [OF assms(1,2) True]
    by (simp add: chain_children [OF assms] chainCommit_def add_def)
qed

lemma chain_iteration:
  assumes "distinct hs" "mset gitLog = mset (linearHistory hs)" "j < length hs"
    and "agrees repoID hs db0" "int (length hs) \<le> maxInt"
    and "\<forall>h\<in>set hs. \<not> down (EncodeToString h)"
  shows "iteration down repoID gitLog (fst (buildGraph gitLog)) (chainState repoID hs db0 j) =
           Inr (chainState repoID hs db0 (Suc j))"
proof -
  have pop: "pop (toBeProcessed (chainState repoID hs db0 j)) = Some (chainCommit hs j, \<lparr>stack = []\<rparr>)"
    using assms(3) by (simp add: chainState_def pop_def)
  have lk: "lookupParents down (chainStore repoID hs db0 j) repoID
              (ParentHashes (chainCommit hs j)) [] =
            Inr (if j = 0 then [] else [chainVersion repoID hs (j - 1)])"
    by (rule chain_lookupParents [OF assms(1,3,4,6)])
  have "int j < maxInt" using assms(3,5) by simp
  note nv = chain_newVersion [OF this, of repoID hs]
  note cr = chain_Create [OF assms(1,3,6), of repoID db0]
  note pr = chain_pushReady [OF assms(1,2,3)]
  have tk: "insert (hs ! j) (set (take j hs)) = set (take (Suc j) hs)"
    using assms(3) by (simp add: take_Suc_conv_app_nth)
  have "iteration down repoID gitLog (fst (buildGraph gitLog)) (chainState repoID hs db0 j) =
          (case pushReady gitLog (insert (hs ! j) (set (take j hs)))
                  (fst (buildGraph gitLog) (hs ! j)) \<lparr>stack = []\<rparr> of
             Inl e \<Rightarrow> Inl (chainStore repoID hs db0 (Suc j), e)
           | Inr b' \<Rightarrow>
               Inr \<lparr>db = chainStore repoID hs db0 (Suc j), paths = chainPaths (Suc j),
                    toBeProcessed = b', processed = insert (hs ! j) (set (take j hs))\<rparr>)"
    unfolding iteration_def pop
    by (simp add: chainState_def lk nv cr Hash_chainCommit Let_def del: pushReady.simps)
  also have "\<dots> = Inr \<lparr>db = chainStore repoID hs db0 (Suc j), paths = chainPaths (Suc j),
                    toBeProcessed = \<lparr>stack = (if Suc j < length hs then [chainCommit hs (Suc j)] else [])\<rparr>,
                    processed = insert (hs ! j) (set (take j hs))\<rparr>"
    by (simp only: pr sum.case)
  also have "\<dots> = Inr (chainState repoID hs db0 (Suc j))"
    by (simp only: chainState_def tk)
  finally show ?thesis .
qed

lemma chain_loop:
  assumes "distinct hs" "mset gitLog = mset (linearHistory hs)"
    and "agrees repoID hs db0" "int (length hs) \<le> maxInt"
    and "\<forall>h\<in>set hs. \<not> down (EncodeToString h)"
    and "j \<le> length hs"
  shows "loop down repoID gitLog (fst (buildGraph gitLog)) (chainState repoID hs db0 j) =
           Some (chainStore repoID hs db0 (length hs), None)"
  using assms(6)
proof (induction "length hs - j" arbitrary: j)
  case 0
  then have "j = length hs" by simp
  then show ?case
    by (subst loop.simps) (simp add: chainState_def notEmpty_def)
next
  case (Suc n)
  then have j: "j < length hs" by simp
  have ne: "notEmpty (toBeProcessed (chainState repoID hs db0 j))"
    using j by (simp add: chainState_def notEmpty_def)
  have "n = length hs - Suc j" "Suc j \<le> length hs" using Suc by simp_all
  from Suc.hyps(1) [OF this] show ?case
    using ne chain_iteration [OF assms(1,2) j assms(3,4,5)]
    by (subst loop.simps) simp
qed

text \<open>The empty store agrees with every history, and so does the store that a run leaves.\<close>

lemma agrees_Nil: "agrees repoID hs []"
  by (simp add: agrees_def)

lemma agrees_chainStore:
  assumes "distinct hs" "agrees repoID hs db0" "n \<le> length hs"
  shows "agrees repoID hs (chainStore repoID hs db0 n)"
proof -
  have "v = chainVersion repoID hs j"
    if v: "v \<in> set (chainStore repoID hs db0 n)" and j: "j < length hs"
      and hk: "hasKey repoID (EncodeToString (hs ! j)) v" for v j
  proof -
    from v consider "v \<in> set db0" | i where "i < n" "v = chainVersion repoID hs i"
      by (auto simp: chainStore_def absent_def)
    then show ?thesis
    proof cases
      case 1
      then show ?thesis by (rule agrees_row [OF assms(2) _ j hk])
    next
      case 2
      with hk have "EncodeToString (hs ! i) = EncodeToString (hs ! j)"
        by (simp add: hasKey_def chainVersion_def)
      then have "hs ! i = hs ! j"
        by (simp add: EncodeToString_inj)
      then have "i = j"
        using assms(1,3) 2(1) j by (simp add: nth_eq_iff_index_eq)
      with 2 show ?thesis by simp
    qed
  qed
  then show ?thesis
    by (auto simp: agrees_def list_all_iff)
qed

text \<open>
  Claim C6, as amended. For a strictly linear history over \<open>N\<close> distinct hashes, in
  whatever order the log yields its commits, and a store that agrees with the history (an
  empty store does; so does the store that an earlier, complete or interrupted, run of the
  same history left), \<open>Clone\<close> with a fresh allocator ends without an error. It adds to the
  store the versions of the commits that the store did not hold, and afterwards the store
  holds for every commit of the history the color 1 and the indices 1, 2, ..., \<open>N\<close> in the
  order of the history. \<open>N\<close> is at most \<open>maxInt\<close>, as the length of a Go slice is, and
  no round trip to the store fails.
\<close>

theorem linear_history:
  assumes "distinct hs" and "hs \<noteq> []" and "int (length hs) \<le> maxInt"
    and "mset gitLog = mset (linearHistory hs)"
    and "\<forall>h\<in>set hs. \<not> down (EncodeToString h)"
    and "agrees repoID hs db0"
  shows "Clone down db0 repoID (Some gitLog) =
           Some (chainStore repoID hs db0 (length hs), None) \<and>
         (\<forall>j<length hs.
            Lookup down (chainStore repoID hs db0 (length hs)) repoID (EncodeToString (hs ! j)) =
              Inr (Some (chainVersion repoID hs j)))"
proof
  obtain children roots where g: "buildGraph gitLog = (children, roots)"
    by (cases "buildGraph gitLog")
  have roots: "roots = [hs ! 0]"
    using chain_roots [OF assms(1,2,4)] g by simp
  have 0: "0 < length hs" using assms(2) by simp
  have seed: "seed gitLog [hs ! 0] \<lparr>stack = []\<rparr> = Inr \<lparr>stack = [chainCommit hs 0]\<rparr>"
    using chain_CommitObject [OF assms(1,4) 0] by (simp add: add_def)
  have start: "startState db0 \<lparr>stack = [chainCommit hs 0]\<rparr> = chainState repoID hs db0 0"
    using 0 by (simp add: startState_def chainState_def chainPaths_def chainStore_0)
  have "loop down repoID gitLog children (chainState repoID hs db0 0) =
          Some (chainStore repoID hs db0 (length hs), None)"
    using chain_loop [OF assms(1,4,6,3,5), of 0] g by simp
  then show "Clone down db0 repoID (Some gitLog) =
               Some (chainStore repoID hs db0 (length hs), None)"
    by (simp add: Clone_def g roots seed start del: seed.simps)
next
  show "\<forall>j<length hs.
          Lookup down (chainStore repoID hs db0 (length hs)) repoID (EncodeToString (hs ! j)) =
            Inr (Some (chainVersion repoID hs j))"
    using assms(5) find_chainStore [OF assms(1) order_refl _ assms(6)]
    by (simp add: Lookup_def)
qed

section \<open>The frontier bounds the stored reachability\<close>

lemma set_update_weak:
  "e \<in> set (AList.update k v al) \<Longrightarrow> e = (k, v) \<or> e \<in> set al"
  by (induction al) (auto split: if_splits)

lemma set_update:
  assumes "distinct (map fst al)" and "(c, i) \<in> set (AList.update k v al)"
  shows "(c = k \<and> i = v) \<or> (c \<noteq> k \<and> (c, i) \<in> set al)"
proof -
  have "distinct (map fst (AList.update k v al))"
    using assms(1) by (rule distinct_update)
  then have "map_of (AList.update k v al) c = Some i"
    using assms(2) by simp
  then have "((map_of al)(k \<mapsto> v)) c = Some i"
    by (simp only: update_conv')
  then show ?thesis
    by (auto dest: map_of_SomeD split: if_splits)
qed

lemma TakeIndex_topIndices:
  "TakeIndex p agg = (cov, p') \<Longrightarrow>
     topIndices p' = AList.update (PathColor cov) (PathIndex cov) (topIndices p)"
  by (auto simp: TakeIndex_def Let_def)

lemma lookupParents_subset:
  "lookupParents down store repoID hs acc = Inr ps \<Longrightarrow> set ps \<subseteq> set acc \<union> set store"
proof (induction hs arbitrary: acc)
  case Nil
  then show ?case by auto
next
  case (Cons h hs)
  from Cons.prems obtain p where
    p: "find (hasKey repoID (EncodeToString h)) store = Some p"
    and rest: "lookupParents down store repoID hs (acc @ [p]) = Inr ps"
    by (auto simp: Lookup_def split: sum.splits option.splits if_splits)
  from p have "p \<in> set store"
    by (auto simp: find_Some_iff)
  with Cons.IH [OF rest] show ?case by auto
qed

lemma CreateIfNotExists_subset:
  "CreateIfNotExists down store v = Inr store' \<Longrightarrow> set store' \<subseteq> insert v (set store)"
  by (auto simp: CreateIfNotExists_def split: if_splits)

lemma newVersion_frontier:
  assumes nv: "newVersion repoID c ps pc = (v, pc')"
    and range: "\<forall>e\<in>set (topIndices pc). 0 \<le> snd e \<and> snd e < maxInt"
    and bound: "\<forall>p\<in>set ps. \<forall>e\<in>set (Reachability p). snd e \<le> rd (topIndices pc) (fst e)"
  shows "rd (topIndices pc) k \<le> rd (topIndices pc') k"
    and "\<forall>e\<in>set (Reachability v). snd e \<le> rd (topIndices pc') (fst e)"
    and "\<forall>e\<in>set (topIndices pc'). 0 \<le> snd e"
proof -
  let ?t = "topIndices pc"
  let ?col = "PathColor (PathCoverage v)"
  let ?idx = "PathIndex (PathCoverage v)"
  have mx: "0 < maxInt" by (simp add: maxInt_def)
  have r: "0 \<le> rd ?t c'" "rd ?t c' < maxInt" for c'
    using rd_cases [of ?t c'] range mx by auto
  note take = newVersion_fields(3) [OF nv]
  have "?idx = wrapInt (rd ?t ?col + 1)"
    using take by (rule TakeIndex_index)
  then have idx: "?idx = rd ?t ?col + 1"
    using r [of ?col] by (simp add: wrapInt_id minInt_def)
  have t': "topIndices pc' = AList.update ?col ?idx ?t"
    using take by (rule TakeIndex_topIndices)
  show mono: "rd ?t k \<le> rd (topIndices pc') k" for k
    using idx by (simp add: t' rd_update)
  show "\<forall>e\<in>set (Reachability v). snd e \<le> rd (topIndices pc') (fst e)"
  proof
    fix e
    assume e: "e \<in> set (Reachability v)"
    obtain k i where ki: "e = (k, i)" by (cases e)
    from e ki have "(k = ?col \<and> i = ?idx) \<or> (k \<noteq> ?col \<and> (k, i) \<in> set (aggregateReachability ps))"
      using set_update [OF distinct_aggregate, where c = k and i = i and parents1 = ps and k = ?col and v = ?idx]
      by (simp add: newVersion_fields(4) [OF nv])
    then show "snd e \<le> rd (topIndices pc') (fst e)"
    proof
      assume "k = ?col \<and> i = ?idx"
      then show ?thesis
        using ki by (simp add: t' rd_update)
    next
      assume a: "k \<noteq> ?col \<and> (k, i) \<in> set (aggregateReachability ps)"
      then have "i = rd (aggregateReachability ps) k"
        using rd_distinct [OF distinct_aggregate, of k i ps] by simp
      also have "\<dots> = Max (insert 0 {i. (k, i) \<in> set (entries ps)})"
        by (rule rd_aggregate)
      also have "\<dots> \<le> rd ?t k"
        using bound r(1) [of k] by (fastforce simp: finite_carried entries_def)
      also have "\<dots> \<le> rd (topIndices pc') k"
        by (rule mono)
      finally show ?thesis
        using ki by simp
    qed
  qed
  show "\<forall>e\<in>set (topIndices pc'). 0 \<le> snd e"
  proof
    fix e
    assume "e \<in> set (topIndices pc')"
    then have "e = (?col, ?idx) \<or> e \<in> set ?t"
      using set_update_weak [of e ?col ?idx ?t] by (simp add: t')
    then show "0 \<le> snd e"
      using idx r(1) [of ?col] range by auto
  qed
qed

lemma iteration_keeps_bound:
  assumes it: "iteration down repoID gitRepo children s = Inr s'"
    and range: "\<forall>e\<in>set (topIndices (paths s)). 0 \<le> snd e \<and> snd e < maxInt"
    and bound: "\<forall>v\<in>set (db s). \<forall>e\<in>set (Reachability v).
                  snd e \<le> rd (topIndices (paths s)) (fst e)"
  shows "\<forall>v\<in>set (db s'). \<forall>e\<in>set (Reachability v).
           snd e \<le> rd (topIndices (paths s')) (fst e)"
    and "\<forall>e\<in>set (topIndices (paths s')). 0 \<le> snd e"
proof -
  from it obtain c b where pop: "pop (toBeProcessed s) = Some (c, b)"
    by (auto simp: iteration_def split: option.splits)
  from it pop obtain ps where ps: "lookupParents down (db s) repoID (ParentHashes c) [] = Inr ps"
    by (auto simp: iteration_def split: sum.splits)
  obtain v pc1 where v: "newVersion repoID c ps (paths s) = (v, pc1)"
    by (cases "newVersion repoID c ps (paths s)")
  from it pop ps v obtain store1 where
    cr: "CreateIfNotExists down (db s) v = Inr store1"
    by (auto simp: iteration_def split: sum.splits)
  from it pop ps v cr have s': "db s' = store1" "paths s' = pc1"
    by (auto simp: iteration_def Let_def split: sum.splits)
  have "set ps \<subseteq> set (db s)"
    using lookupParents_subset [OF ps] by simp
  then have pb: "\<forall>p\<in>set ps. \<forall>e\<in>set (Reachability p). snd e \<le> rd (topIndices (paths s)) (fst e)"
    using bound by blast
  note f = newVersion_frontier [OF v range pb]
  show "\<forall>v\<in>set (db s'). \<forall>e\<in>set (Reachability v). snd e \<le> rd (topIndices (paths s')) (fst e)"
  proof (intro ballI)
    fix w e
    assume w: "w \<in> set (db s')" and e: "e \<in> set (Reachability w)"
    from w have "w = v \<or> w \<in> set (db s)"
      using CreateIfNotExists_subset [OF cr] s' by auto
    then show "snd e \<le> rd (topIndices (paths s')) (fst e)"
    proof
      assume "w = v"
      then show ?thesis using f(2) e s' by simp
    next
      assume "w \<in> set (db s)"
      then have "snd e \<le> rd (topIndices (paths s)) (fst e)"
        using bound e by blast
      also have "\<dots> \<le> rd (topIndices pc1) (fst e)"
        by (rule f(1))
      finally show ?thesis using s' by simp
    qed
  qed
  show "\<forall>e\<in>set (topIndices (paths s')). 0 \<le> snd e"
    using f(3) s' by simp
qed

lemma startState_bound:
  "(\<forall>e\<in>set (topIndices (paths (startState [] b))). 0 \<le> snd e \<and> snd e < maxInt) \<and>
   (\<forall>v\<in>set (db (startState [] b)). \<forall>e\<in>set (Reachability v).
      snd e \<le> rd (topIndices (paths (startState [] b))) (fst e))"
  by (simp add: startState_def initPaths_def)

section \<open>The versions a run adds to the store\<close>

lemma newVersion_selfReaching: "newVersion repoID c ps pc = (v, pc') \<Longrightarrow> selfReaching v"
  by (simp add: selfReaching_def newVersion_fields(4) update_conv')

lemma iteration_rows:
  assumes "iteration down repoID gitRepo children s = Inr s'"
  shows "set (db s') \<subseteq> set (db s) \<union> Collect selfReaching"
  using assms
  by (auto simp: iteration_def Let_def
           dest!: CreateIfNotExists_subset newVersion_selfReaching
           split: option.splits sum.splits prod.splits)

lemma iteration_error_rows:
  assumes "iteration down repoID gitRepo children s = Inl (d, e)"
  shows "set d \<subseteq> set (db s) \<union> Collect selfReaching"
  using assms
  by (auto simp: iteration_def Let_def
           dest!: CreateIfNotExists_subset newVersion_selfReaching
           split: option.splits sum.splits prod.splits)

lemma loop_rows:
  assumes "loop down repoID gitRepo children s = Some y"
  shows "set (fst y) \<subseteq> set (db s) \<union> Collect selfReaching"
proof (rule loop.raw_induct [where P = "\<lambda>_ _ _ _ s y. set (fst y) \<subseteq> set (db s) \<union> Collect selfReaching",
        OF _ assms])
  fix loop' :: "(string \<Rightarrow> bool) \<Rightarrow> int \<Rightarrow> Commit list \<Rightarrow> (Hash \<Rightarrow> Hash list) \<Rightarrow> state
                  \<Rightarrow> (Store \<times> error option) option"
    and down repoID gitRepo children s y
  assume IH: "\<And>down repoID gitRepo children s y. loop' down repoID gitRepo children s = Some y \<Longrightarrow>
         set (fst y) \<subseteq> set (db s) \<union> Collect selfReaching"
    and body: "(if notEmpty (toBeProcessed s) then
        (case iteration down repoID gitRepo children s of
           Inl (d, e) \<Rightarrow> Some (d, Some e)
         | Inr s' \<Rightarrow> loop' down repoID gitRepo children s')
      else Some (db s, None)) = Some y"
  show "set (fst y) \<subseteq> set (db s) \<union> Collect selfReaching"
  proof (cases "notEmpty (toBeProcessed s)")
    case False
    then show ?thesis using body by auto
  next
    case True
    show ?thesis
    proof (cases "iteration down repoID gitRepo children s")
      case (Inl de)
      obtain d e where de: "de = (d, e)" by (cases de)
      then have "y = (d, Some e)" using body True Inl by simp
      then show ?thesis
        using iteration_error_rows [OF Inl [unfolded de]] by simp
    next
      case (Inr s')
      then have "loop' down repoID gitRepo children s' = Some y"
        using body True by simp
      from IH [OF this] iteration_rows [OF Inr] show ?thesis by blast
    qed
  qed
qed

lemma Clone_rows:
  assumes "Clone down db0 repoID source = Some (db1, e)" and "v \<in> set db1" and "v \<notin> set db0"
  shows "map_of (Reachability v) (PathColor (PathCoverage v)) = Some (PathIndex (PathCoverage v))"
proof -
  have "set db1 \<subseteq> set db0 \<union> Collect selfReaching"
    using assms(1) loop_rows [of down repoID _ _ "startState db0 _" "(db1, e)"]
    by (auto simp: Clone_def startState_def split: option.splits prod.splits if_splits sum.splits)
  then show ?thesis
    using assms(2,3) by (auto simp: selfReaching_def)
qed

section \<open>The diamond\<close>

text \<open>
  Claim C5, as amended. On the diamond, from the empty store and a fresh allocator, the
  commits are processed in the order R, A, B, M. R gets color 1, index 1 and the reachability
  {1: 1}; A gets color 1, index 2 and {1: 2}; B gets color 2, index 1 and {1: 1, 2: 1}, the
  map aggregated from R with B's own entry added; M gets color 1, index 3 and {1: 3, 2: 1}.
\<close>

theorem diamond_coordinates:
  "Clone up [] 7 (Some diamondLog) = Some ([versionR, versionA, versionB, versionM], None) \<and>
   (PathCoverage versionR = \<lparr>PathColor = 1, PathIndex = 1\<rparr> \<and>
    map_of (Reachability versionR) = [1 \<mapsto> 1]) \<and>
   (PathCoverage versionA = \<lparr>PathColor = 1, PathIndex = 2\<rparr> \<and>
    map_of (Reachability versionA) = [1 \<mapsto> 2]) \<and>
   (PathCoverage versionB = \<lparr>PathColor = 2, PathIndex = 1\<rparr> \<and>
    map_of (Reachability versionB) = [1 \<mapsto> 1, 2 \<mapsto> 1]) \<and>
   (PathCoverage versionM = \<lparr>PathColor = 1, PathIndex = 3\<rparr> \<and>
    map_of (Reachability versionM) = [1 \<mapsto> 3, 2 \<mapsto> 1])"
proof -
  have "Clone up [] 7 (Some diamondLog) = Some ([versionR, versionA, versionB, versionM], None)"
    by code_simp
  moreover have "map_of (Reachability versionB) = [1 \<mapsto> 1, 2 \<mapsto> 1]"
    "map_of (Reachability versionM) = [1 \<mapsto> 3, 2 \<mapsto> 1]"
    by (simp_all add: versionB_def versionM_def version_def fun_eq_iff)
  ultimately show ?thesis
    by (simp add: versionR_def versionA_def versionB_def versionM_def version_def)
qed

text \<open>The version stored for B reaches R on color 1: its reachability is not {2: 1}.\<close>

theorem diamond_B_reachability_counterexample:
  "Clone up [] 7 (Some diamondLog) = Some (diamondStore, None) \<and>
   find (hasKey 7 (EncodeToString (Hash commitB))) diamondStore = Some versionB \<and>
   map_of (Reachability versionB) 1 = Some 1 \<and>
   map_of (Reachability versionB) \<noteq> [2 \<mapsto> 1]"
proof -
  have one: "map_of (Reachability versionB) 1 = Some 1"
    by (simp add: versionB_def version_def)
  moreover have "[2 \<mapsto> 1] (1::int) = (None :: int option)"
    by simp
  ultimately have "map_of (Reachability versionB) \<noteq> [2 \<mapsto> 1]"
    by (metis option.distinct(1))
  moreover have "Clone up [] 7 (Some diamondLog) = Some (diamondStore, None)"
    by code_simp
  moreover have "find (hasKey 7 (EncodeToString (Hash commitB))) diamondStore = Some versionB"
    by code_simp
  ultimately show ?thesis
    using one by simp
qed

text \<open>
  The allocator with which the second run enters its loop is the empty one, not the one
  reconstructed from the versions of R and A.
\<close>

theorem resume_allocator_counterexample:
  "Clone interrupted [] 7 (Some diamondLog) = Some ([versionR, versionA], Some TransientError) \<and>
   seed diamondLog (snd (buildGraph diamondLog)) \<lparr>stack = []\<rparr> = Inr \<lparr>stack = [commitR]\<rparr> \<and>
   paths (startState [versionR, versionA] \<lparr>stack = [commitR]\<rparr>) =
     \<lparr>topIndices = [], highestUsedColor = 0\<rparr> \<and>
   reconstructed [versionR, versionA] = \<lparr>topIndices = [(1, 2)], highestUsedColor = 1\<rparr>"
  by code_simp

section \<open>Instances\<close>



text \<open>B of the diamond, computed from the stored version of R.\<close>

theorem monotone_reachability_witness:
  "1 \<le> rd (Reachability (fst (newVersion 7 commitB [versionR]
            \<lparr>topIndices = [(1, 2)], highestUsedColor = 1\<rparr>))) 1"
proof -
  have t: "\<forall>e\<in>set (topIndices \<lparr>topIndices = [(1, 2)], highestUsedColor = 1\<rparr>).
             0 \<le> snd e \<and> snd e < maxInt"
    by (simp add: maxInt_def)
  have b: "\<forall>p\<in>set [versionR]. \<forall>e\<in>set (Reachability p).
             snd e \<le> rd (topIndices \<lparr>topIndices = [(1, 2)], highestUsedColor = 1\<rparr>) (fst e)"
    by (simp add: versionR_def version_def rd_def)
  have p: "versionR \<in> set [versionR]" by simp
  have e: "(1, 1) \<in> set (Reachability versionR)"
    by (simp add: versionR_def version_def)
  show ?thesis
    by (rule monotone_reachability [OF t b p e])
qed

text \<open>
  The first branch is ingested into the empty store; T gets color 3 and index 2. The second
  branch is then ingested into the same store, with a fresh allocator: when U is reached the
  allocator has used the colors 1 and 2 only, the stored reachability {3: 2} of the parent T
  is not at a frontier, and U gets the new color 3 with index 1. U reaches index 1 on color
  3, below the 2 of its parent.
\<close>

theorem monotone_second_branch_counterexample:
  "Clone up [] 7 (Some firstBranchLog) = Some (firstBranchStore, None) \<and>
   Clone up firstBranchStore 7 (Some secondBranchLog) = Some (firstBranchStore @ [versionU], None) \<and>
   ParentHashes commitU = [Hash commitT] \<and>
   Lookup up firstBranchStore 7 (EncodeToString (Hash commitT)) =
     Inr (Some (version commitT 3 2 [(3, 2)])) \<and>
   (3, 2) \<in> set (Reachability (version commitT 3 2 [(3, 2)])) \<and>
   rd (Reachability versionU) 3 = 1"
  by code_simp

text \<open>
  The diamond, stopped by a failing round trip for B when R and A are persisted, and the
  first branch of the repository with two branches, stopped when its three roots are
  persisted.
\<close>

theorem resume_correctness_witness:
  "Clone interrupted [] 7 (Some diamondLog) = Some ([versionR, versionA], Some TransientError) \<and>
   Clone up [] 7 (Some diamondLog) = Some ([versionR, versionA, versionB, versionM], None) \<and>
   Clone up [versionR, versionA] 7 (Some diamondLog) =
     Some ([versionR, versionA, versionB, versionM], None) \<and>
   Clone up [] 7 (Some firstBranchLog) = Some (firstBranchStore, None) \<and>
   Clone up [version rootP 1 1 [(1, 1)], version rootQ 2 1 [(2, 1)], version rootS 3 1 [(3, 1)]] 7
     (Some firstBranchLog) = Some (firstBranchStore, None)"
proof -
  let ?roots = "[version rootP 1 1 [(1, 1)], version rootQ 2 1 [(2, 1)], version rootS 3 1 [(3, 1)]]"
  let ?rest = "[version commitT 3 2 [(3, 2)], version commitH 1 2 [(1, 2), (2, 1), (3, 2)]]"
  have i: "Clone interrupted [] 7 (Some diamondLog) = Some ([versionR, versionA], Some TransientError)"
    by code_simp
  have u: "Clone up [] 7 (Some diamondLog) = Some ([] @ [versionR, versionA] @ [versionB, versionM], None)"
    by code_simp
  have f: "Clone up [] 7 (Some firstBranchLog) = Some ([] @ ?roots @ ?rest, None)"
    by code_simp
  have st: "firstBranchStore = ?roots @ ?rest"
    by (simp add: firstBranchStore_def)
  show ?thesis
    using resume_correctness [OF u] resume_correctness [OF f] i u f st by simp
qed

text \<open>
  A linear history of three commits, with the log newest first, ingested into the empty
  store and into a store that holds the version of the second commit and a version of
  another repository.
\<close>

theorem linear_history_witness:
  "(Clone up [] 7
      (Some [chainCommit [hashOf 1, hashOf 2, hashOf 3] 2,
             chainCommit [hashOf 1, hashOf 2, hashOf 3] 1,
             chainCommit [hashOf 1, hashOf 2, hashOf 3] 0]) =
    Some ([chainVersion 7 [hashOf 1, hashOf 2, hashOf 3] 0,
           chainVersion 7 [hashOf 1, hashOf 2, hashOf 3] 1,
           chainVersion 7 [hashOf 1, hashOf 2, hashOf 3] 2], None) \<and>
    Lookup up [chainVersion 7 [hashOf 1, hashOf 2, hashOf 3] 0,
               chainVersion 7 [hashOf 1, hashOf 2, hashOf 3] 1,
               chainVersion 7 [hashOf 1, hashOf 2, hashOf 3] 2] 7 (EncodeToString (hashOf 3)) =
      Inr (Some (chainVersion 7 [hashOf 1, hashOf 2, hashOf 3] 2))) \<and>
   Clone up [chainVersion 7 [hashOf 1, hashOf 2, hashOf 3] 1, chainVersion 8 [hashOf 1] 0] 7
      (Some [chainCommit [hashOf 1, hashOf 2, hashOf 3] 2,
             chainCommit [hashOf 1, hashOf 2, hashOf 3] 1,
             chainCommit [hashOf 1, hashOf 2, hashOf 3] 0]) =
    Some ([chainVersion 7 [hashOf 1, hashOf 2, hashOf 3] 1, chainVersion 8 [hashOf 1] 0,
           chainVersion 7 [hashOf 1, hashOf 2, hashOf 3] 0,
           chainVersion 7 [hashOf 1, hashOf 2, hashOf 3] 2], None)"
proof -
  let ?hs = "[hashOf 1, hashOf 2, hashOf 3]"
  let ?log = "[chainCommit ?hs 2, chainCommit ?hs 1, chainCommit ?hs 0]"
  let ?db = "[chainVersion 7 ?hs 1, chainVersion 8 [hashOf 1] 0]"
  have d: "distinct ?hs" by (simp add: hashOf_def)
  have ne: "?hs \<noteq> []" by simp
  have len: "int (length ?hs) \<le> maxInt" by (simp add: maxInt_def)
  have lh: "linearHistory ?hs = [chainCommit ?hs 0, chainCommit ?hs 1, chainCommit ?hs 2]"
    by (simp add: linearHistory_def upt_rec numeral_2_eq_2)
  have log: "mset ?log = mset (linearHistory ?hs)"
    by (simp add: lh)
  have u: "\<forall>h\<in>set ?hs. \<not> up (EncodeToString h)" by (simp add: up_def)
  have a0: "agrees 7 ?hs []" by (simp add: agrees_def)
  have a1: "agrees 7 ?hs ?db" by code_simp
  have s0: "chainStore 7 ?hs [] (length ?hs) =
      [chainVersion 7 ?hs 0, chainVersion 7 ?hs 1, chainVersion 7 ?hs 2]"
    by code_simp
  have s1: "chainStore 7 ?hs ?db (length ?hs) =
      [chainVersion 7 ?hs 1, chainVersion 8 [hashOf 1] 0, chainVersion 7 ?hs 0, chainVersion 7 ?hs 2]"
    by code_simp
  have 2: "(2::nat) < length ?hs" "?hs ! 2 = hashOf 3" by simp_all
  show ?thesis
    using linear_history [OF d ne len log u a0] linear_history [OF d ne len log u a1] 2
    unfolding s0 s1 by (metis (no_types))
qed

text \<open>
  The second branch of the repository with two branches is a strictly linear history: the
  root S, its child T and the head U. It is ingested, with a fresh allocator, into the
  store that the ingestion of the first branch left, which holds S and T with the color 3.
  The run computes for S, T, U the coordinates (1, 1), (2, 1), (3, 1); the store keeps its
  versions of S and T and gets that of U, and then holds the indices 1, 2, 1.
\<close>

theorem linear_history_store_counterexample:
  "secondBranchLog = rev (linearHistory [hashOf 13, hashOf 14, hashOf 16]) \<and>
   Clone up [] 7 (Some firstBranchLog) = Some (firstBranchStore, None) \<and>
   Clone up firstBranchStore 7 (Some secondBranchLog) = Some (firstBranchStore @ [versionU], None) \<and>
   map (\<lambda>h. map_option PathCoverage
               (find (hasKey 7 (EncodeToString h)) (firstBranchStore @ [versionU])))
     [hashOf 13, hashOf 14, hashOf 16] =
     [Some \<lparr>PathColor = 3, PathIndex = 1\<rparr>, Some \<lparr>PathColor = 3, PathIndex = 2\<rparr>,
      Some \<lparr>PathColor = 3, PathIndex = 1\<rparr>] \<and>
   PathCoverage (fst (newVersion 7 rootS [] initPaths)) = \<lparr>PathColor = 1, PathIndex = 1\<rparr> \<and>
   PathCoverage (fst (newVersion 7 commitT [version rootS 3 1 [(3, 1)]]
                        (snd (newVersion 7 rootS [] initPaths)))) =
     \<lparr>PathColor = 2, PathIndex = 1\<rparr>"
  by code_simp

text \<open>A log that holds A alone has no root; the log of the diamond has the root R.\<close>

theorem empty_graph_error_witness:
  "Clone up [] 7 (Some [commitA]) = Some ([], Some EmptyGraphError) \<and>
   (\<exists>store e. Clone up [] 7 (Some diamondLog) = Some (store, e) \<and> e \<noteq> Some EmptyGraphError)"
proof -
  have "\<forall>c\<in>set [commitA]. ParentHashes c \<noteq> []"
    by (simp add: commitA_def)
  moreover have "\<exists>c\<in>set diamondLog. ParentHashes c = []"
    by (simp add: diamondLog_def commitR_def)
  ultimately show ?thesis
    using empty_graph_error [of "[commitA]" up "[]" 7] empty_graph_error [of diamondLog up "[]" 7]
    by blast
qed

text \<open>
  M on top of the bag while the store holds R and A only: the lookup of A succeeds, the
  lookup of B returns not-found, and B, next in the bag, is not processed.
\<close>

theorem missing_parent_is_fatal_witness:
  "loop up 7 diamondLog (fst (buildGraph diamondLog))
     \<lparr>db = [versionR, versionA], paths = initPaths,
      toBeProcessed = \<lparr>stack = [commitB, commitM]\<rparr>, processed = {}\<rparr> =
   Some ([versionR, versionA], Some (IntegrityError (EncodeToString (hashOf 3))))"
proof -
  let ?s = "\<lparr>db = [versionR, versionA], paths = initPaths,
      toBeProcessed = \<lparr>stack = [commitB, commitM]\<rparr>, processed = {}\<rparr>"
  have st: "stack (toBeProcessed ?s) = [commitB] @ [commitM]" by simp
  have ps: "ParentHashes commitM = [hashOf 2] @ hashOf 3 # []"
    by (simp add: commitM_def)
  have found: "Lookup up (db ?s) 7 (EncodeToString (hashOf 2)) = Inr (Some versionA)"
    by code_simp
  then have pre: "\<forall>h'\<in>set [hashOf 2]. \<exists>p. Lookup up (db ?s) 7 (EncodeToString h') = Inr (Some p)"
    by simp
  have missing: "Lookup up (db ?s) 7 (EncodeToString (hashOf 3)) = Inr None"
    by code_simp
  show ?thesis
    using missing_parent_is_fatal [OF st ps pre missing, of diamondLog "fst (buildGraph diamondLog)"]
    by simp
qed

text \<open>The diamond, ingested a second time.\<close>

theorem ingestion_idempotent_witness:
  "noDuplicates diamondStore \<and> Clone up diamondStore 7 (Some diamondLog) = Some (diamondStore, None)"
proof -
  have n: "noDuplicates []" by (simp add: noDuplicates_def)
  have c: "Clone up [] 7 (Some diamondLog) = Some (diamondStore, None)"
    by code_simp
  show ?thesis
    using ingestion_idempotent [OF n, of up 7 "Some diamondLog"] c by auto
qed

text \<open>The parents A and B of M, in both orders.\<close>

theorem aggregateReachability_pointwise_max_witness:
  "(\<forall>c. map_of (aggregateReachability [versionA, versionB]) c = pointwiseMax [versionA, versionB] c) \<and>
   map_of (aggregateReachability [versionB, versionA]) = map_of (aggregateReachability [versionA, versionB]) \<and>
   0 \<notin> snd ` set (aggregateReachability [versionA, versionB])"
proof -
  have pos: "\<forall>p\<in>set [versionA, versionB]. \<forall>e\<in>set (Reachability p). 1 \<le> snd e"
    by (simp add: versionA_def versionB_def version_def)
  have perm: "mset [versionB, versionA] = mset [versionA, versionB]"
    by simp
  show ?thesis
    using aggregateReachability_pointwise_max [OF pos perm] by force
qed

text \<open>
  A parent that carries the color 5 with the value 0: the pointwise maximum maps 5 to 0, the
  result of \<open>aggregateReachability\<close> has no entry for 5.
\<close>

theorem aggregateReachability_nonpositive_counterexample:
  "carried [version commitR 5 1 [(5, 0)]] 5 = [0] \<and>
   pointwiseMax [version commitR 5 1 [(5, 0)]] 5 = Some 0 \<and>
   map_of (aggregateReachability [version commitR 5 1 [(5, 0)]]) 5 = None"
  by code_simp

end
